theory Spec2Isabelle
  imports Complex_Main "HOL-Library.Signed_Division"
begin

section \<open>Results of Go code\<close>

text \<open>
  The Go sources return values, return an \<open>error\<close> beside a value, or stop in a run-time
  panic.  A function that can panic returns \<open>panic + 'a\<close> (\<open>Inl\<close> the panic); an
  \<open>error\<close> result of the source is an \<open>error option\<close> beside the value (\<open>None\<close> is
  Go's \<open>nil\<close>).  \<open>float64\<close> weights are modelled as real numbers: rounding is not part of
  the model.
\<close>

datatype error = SelectorEmpty | NodeIDOutOfRange | alreadyConnected | notFound

datatype panic = IndexOutOfRange | NilDereference | DivideByZero | NegativeLen | OutOfFuel

definition bindP :: "panic + 'a \<Rightarrow> ('a \<Rightarrow> panic + 'b) \<Rightarrow> panic + 'b" where
  "bindP m f = (case m of Inl p \<Rightarrow> Inl p | Inr x \<Rightarrow> f x)"

text \<open>Reading and writing a slice at a Go \<open>int\<close> index: out of range is a panic.\<close>

definition get_at :: "'a list \<Rightarrow> int \<Rightarrow> panic + 'a" where
  "get_at xs i = (if 0 \<le> i \<and> i < int (length xs) then Inr (xs ! nat i) else Inl IndexOutOfRange)"

definition set_at :: "'a list \<Rightarrow> int \<Rightarrow> 'a \<Rightarrow> panic + 'a list" where
  "set_at xs i x = (if 0 \<le> i \<and> i < int (length xs) then Inr (xs[nat i := x]) else Inl IndexOutOfRange)"

section \<open>The weighted selector\<close>

record WeightedItem =
  Index :: int
  Weight :: real
  total :: real

type_synonym Selector = "WeightedItem list"

text \<open>
  \<open>Selector.Init\<close>: the first loop copies every \<open>Weight\<close> into \<open>total\<close>; the second runs
  \<open>i\<close> from \<open>len(s) - 1\<close> down to \<open>1\<close> and adds \<open>s[i].total\<close> to the total of
  \<open>s[(i+1)>>1-1]\<close>.  Every index it uses is in range.
\<close>

definition reset_total :: "WeightedItem \<Rightarrow> WeightedItem" where
  "reset_total x = x\<lparr>total := Weight x\<rparr>"

fun Init_loop :: "nat \<Rightarrow> Selector \<Rightarrow> Selector" where
  "Init_loop 0 s = s"
| "Init_loop (Suc k) s =
     Init_loop k
       (s[(Suc k + 1) div 2 - 1 :=
            (s ! ((Suc k + 1) div 2 - 1))
              \<lparr>total := total (s ! ((Suc k + 1) div 2 - 1)) + total (s ! Suc k)\<rparr>])"

definition Selector_Init :: "Selector \<Rightarrow> Selector" where
  "Selector_Init s = Init_loop (length s - 1) (map reset_total s)"

text \<open>
  \<open>Selector.Select\<close>.  The random number \<open>rand.Float64()\<close> is the argument \<open>u\<close>, a
  value of \<open>[0, 1)\<close>.  \<open>descend\<close> is the search loop on the 1-based position \<open>i\<close>; it
  reads \<open>s[i-1]\<close> at the top of every round and after the move to the left child, and
  each read can be out of range.  \<open>propagate\<close> is the loop that subtracts \<open>w\<close> from the
  totals on the way to the root.
\<close>

function descend :: "Selector \<Rightarrow> real \<Rightarrow> nat \<Rightarrow> panic + nat" where
  "descend s r i =
     (if i = 0 \<or> length s < i then Inl IndexOutOfRange
      else if r - Weight (s ! (i - 1)) \<le> 0 then Inr i
      else if length s < 2 * i then Inl IndexOutOfRange
      else if r - Weight (s ! (i - 1)) > total (s ! (2 * i - 1))
        then descend s (r - Weight (s ! (i - 1)) - total (s ! (2 * i - 1))) (2 * i + 1)
        else descend s (r - Weight (s ! (i - 1))) (2 * i))"
  by pat_completeness auto
termination
  by (relation "measure (\<lambda>(s, r, i). Suc (length s) - i)") auto

declare descend.simps [simp del]

function propagate :: "Selector \<Rightarrow> real \<Rightarrow> nat \<Rightarrow> Selector" where
  "propagate s w i =
     (if 0 < i
      then propagate (s[i - 1 := (s ! (i - 1))\<lparr>total := total (s ! (i - 1)) - w\<rparr>]) w (i div 2)
      else s)"
  by pat_completeness auto
termination
  by (relation "measure (\<lambda>(s, w, i). i)") auto

declare propagate.simps [simp del]

definition Selector_Select :: "Selector \<Rightarrow> real \<Rightarrow> panic + (int \<times> error option \<times> Selector)" where
  "Selector_Select s u =
     (if s = [] then Inl IndexOutOfRange
      else if total (s ! 0) = 0 then Inr (- 1, Some SelectorEmpty, s)
      else bindP (descend s (total (s ! 0) * u) 1) (\<lambda>i.
        Inr (Index (s ! (i - 1)), None,
             propagate (s[i - 1 := (s ! (i - 1))\<lparr>Weight := 0\<rparr>]) (Weight (s ! (i - 1))) i)))"

text \<open>\<open>Selector.Weight(i, w)\<close>: the new weight is stored and the difference propagated.\<close>

definition Selector_Weight :: "Selector \<Rightarrow> int \<Rightarrow> real \<Rightarrow> panic + Selector" where
  "Selector_Weight s i w =
     bindP (get_at s i) (\<lambda>x.
       Inr (propagate (s[nat i := x\<lparr>Weight := w\<rparr>]) (Weight x - w) (nat i + 1)))"



section \<open>Partition of the iterations among workers\<close>

text \<open>
  Go's \<open>int\<close> is taken as 64 bits wide.  \<open>wrap64\<close> is the two's complement wrap-around
  of a result; \<open>sdiv\<close> and \<open>smod\<close> are Go's \<open>/\<close> and \<open>%\<close>, which truncate towards
  zero.
\<close>

definition wrap64 :: "int \<Rightarrow> int" where
  "wrap64 x = (x + 2 ^ 63) mod 2 ^ 64 - 2 ^ 63"

definition is_int64 :: "int \<Rightarrow> bool" where
  "is_int64 x = (- (2 ^ 63) \<le> x \<and> x < 2 ^ 63)"

text \<open>
  \<open>FastRandMinCutPar\<close>, up to the start of the workers.  \<open>MaxProcs\<close> is the package
  variable set from \<open>runtime.GOMAXPROCS(0)\<close>, a parameter here.  \<open>clamp_thread\<close> is the
  two \<open>if\<close> statements; \<open>partition_loop\<close> is the \<open>for j\<close> loop and returns, for each
  \<open>j\<close>, the value of \<open>iter\<close> passed to the worker, which is the number of rounds that
  worker runs; the division panics when \<open>thread\<close> is zero and \<open>make\<close> panics when it is
  negative.
\<close>

definition clamp_thread :: "int \<Rightarrow> int \<Rightarrow> int \<Rightarrow> int" where
  "clamp_thread MaxProcs iter thread =
     (let thread = (if thread > MaxProcs then MaxProcs else thread)
      in if thread > iter then iter else thread)"

fun partition_loop :: "nat \<Rightarrow> int \<Rightarrow> int \<Rightarrow> int list" where
  "partition_loop 0 iter rem = []"
| "partition_loop (Suc n) iter rem =
     (let iter = (if rem = 0 then wrap64 (iter - 1) else iter);
          rem = (if rem \<ge> 0 then wrap64 (rem - 1) else rem)
      in iter # partition_loop n iter rem)"

definition FastRandMinCutPar_iters :: "int \<Rightarrow> int \<Rightarrow> int \<Rightarrow> panic + int list" where
  "FastRandMinCutPar_iters MaxProcs iter thread =
     (let thread = clamp_thread MaxProcs iter thread
      in if thread = 0 then Inl DivideByZero
         else let iter' = wrap64 (wrap64 (iter sdiv thread) + 1); rem = iter smod thread
              in if thread < 0 then Inl NegativeLen
                 else Inr (partition_loop (nat thread) iter' rem))"

section \<open>Graphs and the contraction context\<close>

text \<open>
  Edges and nodes (\<open>edge.go\<close>, \<open>node.go\<close>).  A \<open>Node\<close> held by an edge is its id, \<open>None\<close>
  for Go's \<open>nil\<close>: inside one graph a node and its id stand for each other.  \<open>Head\<close> is
  \<open>v\<close> and \<open>Tail\<close> is \<open>u\<close>.  A node holds its incident edges by value.
\<close>

record edge =
  edge_id :: int
  edge_i :: int
  edge_u :: "int option"
  edge_v :: "int option"
  weight :: real
  flags :: nat

record node =
  node_id :: int
  node_i :: int
  node_edges :: "edge list"

definition newNode :: "int \<Rightarrow> node" where
  "newNode id' = \<lparr>node_id = id', node_i = 0, node_edges = []\<rparr>"

definition newEdge :: "int \<Rightarrow> int \<Rightarrow> int option \<Rightarrow> int option \<Rightarrow> real \<Rightarrow> nat \<Rightarrow> edge" where
  "newEdge id' i u v w f =
     \<lparr>edge_id = id', edge_i = i, edge_u = u, edge_v = v, weight = w, flags = f\<rparr>"

text \<open>\<open>e.Head().ID()\<close> and \<open>e.Tail().ID()\<close>: a method call on a \<open>nil\<close> node panics.\<close>

definition Head_ID :: "edge \<Rightarrow> panic + int" where
  "Head_ID e = (case edge_v e of None \<Rightarrow> Inl NilDereference | Some n \<Rightarrow> Inr n)"

definition Tail_ID :: "edge \<Rightarrow> panic + int" where
  "Tail_ID e = (case edge_u e of None \<Rightarrow> Inl NilDereference | Some n \<Rightarrow> Inr n)"

text \<open>
  Modelled from the spec: the type \<open>Undirected\<close> and its methods \<open>Nodes\<close>, \<open>Edges\<close>,
  \<open>Order\<close>, \<open>Size\<close>, \<open>NextNodeID\<close> and \<open>Edge\<close> are not among the sources.  The spec gives the
  graph a table from node id to node in which every id is a valid slot, and a compact
  array of all edges; \<open>NextNodeID\<close> is the size of the table, \<open>Edge(id)\<close> looks an edge up
  by its id and is \<open>nil\<close> when there is none.
\<close>

record Undirected =
  g_nodes :: "node option list"
  g_edges :: "edge list"

definition Nodes :: "Undirected \<Rightarrow> int list" where
  "Nodes g = map node_id (List.map_filter (\<lambda>x. x) (g_nodes g))"

definition Order :: "Undirected \<Rightarrow> int" where
  "Order g = int (length (Nodes g))"

definition Size :: "Undirected \<Rightarrow> nat" where
  "Size g = length (g_edges g)"

definition NextNodeID :: "Undirected \<Rightarrow> nat" where
  "NextNodeID g = length (g_nodes g)"

definition Edge :: "Undirected \<Rightarrow> int \<Rightarrow> edge option" where
  "Edge g id' = find (\<lambda>e. edge_id e = id') (g_edges g)"

text \<open>
  The contraction context of \<open>kargerr.go\<close>.  The type \<open>super\<close> is declared outside the
  sources: a label and a slice of member ids, \<open>None\<close> for the \<open>nil\<close> slice.  The graph
  \<open>ka.g\<close> never changes and is passed beside the context.  \<open>kargerRP\<close> has the same fields
  and two more, so the functions the two types share word for word are written once, on
  any extension of \<open>kargerR\<close>.
\<close>

record super =
  label :: int
  nodes :: "int list option"

record kargerR =
  ka_order :: int
  ka_ind :: "super list"
  ka_sel :: Selector
  ka_c :: "edge list"
  ka_w :: real

record kargerRP = kargerR +
  ka_count :: int
  ka_split :: int

definition len_nodes :: "super \<Rightarrow> nat" where
  "len_nodes s = (case nodes s of None \<Rightarrow> 0 | Some xs \<Rightarrow> length xs)"

text \<open>\<open>init\<close>, with the allocation of \<open>newKargerR\<close>: the second loop can index out of range.\<close>

fun init_labels :: "super list \<Rightarrow> int list \<Rightarrow> panic + super list" where
  "init_labels ind [] = Inr ind"
| "init_labels ind (id' # ns) =
     bindP (get_at ind id') (\<lambda>s. init_labels (ind[nat id' := s\<lparr>label := id'\<rparr>]) ns)"

fun fill_sel :: "Selector \<Rightarrow> int \<Rightarrow> edge list \<Rightarrow> panic + Selector" where
  "fill_sel s i [] = Inr s"
| "fill_sel s i (e # es) =
     bindP (set_at s i \<lparr>Index = edge_id e, Weight = weight e, total = 0\<rparr>) (\<lambda>s'.
       fill_sel s' (i + 1) es)"

definition init :: "Undirected \<Rightarrow> 'a kargerR_scheme \<Rightarrow> panic + 'a kargerR_scheme" where
  "init g ka =
     bindP (init_labels (map (\<lambda>s. s\<lparr>label := - 1, nodes := None\<rparr>) (ka_ind ka)) (Nodes g))
       (\<lambda>ind. bindP (fill_sel (ka_sel ka) 0 (g_edges g))
         (\<lambda>s. Inr (ka\<lparr>ka_order := Order g, ka_ind := ind, ka_sel := Selector_Init s\<rparr>)))"

definition newKargerR :: "Undirected \<Rightarrow> kargerR" where
  "newKargerR g =
     \<lparr>ka_order = 0, ka_ind = replicate (NextNodeID g) \<lparr>label = 0, nodes = None\<rparr>,
      ka_sel = replicate (Size g) \<lparr>Index = 0, Weight = 0, total = 0\<rparr>, ka_c = [], ka_w = 0\<rparr>"

definition newKargerRP :: "Undirected \<Rightarrow> kargerRP" where
  "newKargerRP g =
     \<lparr>ka_order = 0, ka_ind = replicate (NextNodeID g) \<lparr>label = 0, nodes = None\<rparr>,
      ka_sel = replicate (Size g) \<lparr>Index = 0, Weight = 0, total = 0\<rparr>, ka_c = [], ka_w = 0,
      ka_count = 0, ka_split = 0\<rparr>"

text \<open>\<open>clone\<close> copies \<open>order\<close>, \<open>ind\<close> and \<open>sel\<close>; \<open>c\<close> and \<open>w\<close> start at their zero values.
  The clone of a \<open>kargerRP\<close> also copies \<open>count\<close>, and not \<open>split\<close>.\<close>

definition clone :: "kargerR \<Rightarrow> kargerR" where
  "clone ka = ka\<lparr>ka_c := [], ka_w := 0\<rparr>"

definition cloneP :: "kargerRP \<Rightarrow> kargerRP" where
  "cloneP ka = ka\<lparr>ka_c := [], ka_w := 0, ka_split := 0\<rparr>"

definition loop :: "'a kargerR_scheme \<Rightarrow> edge \<Rightarrow> panic + bool" where
  "loop ka e =
     bindP (Head_ID e) (\<lambda>hid. bindP (get_at (ka_ind ka) hid) (\<lambda>h.
     bindP (Tail_ID e) (\<lambda>tid. bindP (get_at (ka_ind ka) tid) (\<lambda>t.
       Inr (label h = label t)))))"

text \<open>
  The body of the two contraction loops after the test for a loop edge, the same in
  \<open>randContract\<close> and \<open>randCompact\<close>.  \<open>merge\<close> reads the labels and swaps the two ends
  when the head's member list is the shorter; \<open>absorb\<close> is the rest, from the first
  test for a \<open>nil\<close> member list on (its slice reads are at the indices \<open>merge\<close> has read
  already); \<open>relabel\<close> is the \<open>range\<close> loop over the members.
\<close>

fun relabel :: "super list \<Rightarrow> int \<Rightarrow> int list \<Rightarrow> panic + super list" where
  "relabel ind hid [] = Inr ind"
| "relabel ind hid (i # is) =
     bindP (get_at ind hid) (\<lambda>h. bindP (get_at ind i) (\<lambda>x.
       relabel (ind[nat i := x\<lparr>label := label h\<rparr>]) hid is))"

definition absorb :: "super list \<Rightarrow> int \<Rightarrow> int \<Rightarrow> int \<Rightarrow> int \<Rightarrow> panic + super list" where
  "absorb ind hid tid hl tl' =
     (let ind1 = (let hs = ind ! nat hl
                  in if nodes hs = None then ind[nat hl := hs\<lparr>nodes := Some [hid]\<rparr>] else ind);
          ind2 = (let hs = ind1 ! nat hl; ts = ind1 ! nat tl'
                  in case nodes ts of
                       None \<Rightarrow> ind1[nat hl := hs\<lparr>nodes := Some (the (nodes hs) @ [tid])\<rparr>]
                     | Some tn \<Rightarrow>
                         (let ind' = ind1[nat hl := hs\<lparr>nodes := Some (the (nodes hs) @ tn)\<rparr>]
                          in ind'[nat tl' := (ind' ! nat tl')\<lparr>nodes := None\<rparr>]))
      in relabel ind2 hid (the (nodes (ind2 ! nat hl))))"

definition merge :: "'a kargerR_scheme \<Rightarrow> edge \<Rightarrow> panic + 'a kargerR_scheme" where
  "merge ka e =
     bindP (Head_ID e) (\<lambda>hid0. bindP (Tail_ID e) (\<lambda>tid0.
     bindP (get_at (ka_ind ka) hid0) (\<lambda>h0. bindP (get_at (ka_ind ka) tid0) (\<lambda>t0.
     bindP (get_at (ka_ind ka) (label h0)) (\<lambda>hs0. bindP (get_at (ka_ind ka) (label t0)) (\<lambda>ts0.
       let swap = len_nodes hs0 < len_nodes ts0;
           hid = (if swap then tid0 else hid0);
           tid = (if swap then hid0 else tid0);
           hl = (if swap then label t0 else label h0);
           tl = (if swap then label h0 else label t0)
       in bindP (absorb (ka_ind ka) hid tid hl tl) (\<lambda>ind3.
            Inr (ka\<lparr>ka_ind := ind3, ka_order := ka_order ka - 1\<rparr>))))))))"

text \<open>
  The random source is a list of draws: each call of \<open>Select\<close> takes the next one as the
  value \<open>rand.Float64()\<close> returns if that call asks for it.  A loop that needs a draw when
  none is left stops with \<open>OutOfFuel\<close>.  \<open>contract_loop\<close> is the \<open>for ka.order > k\<close> loop of
  \<open>randContract\<close> and of \<open>randCompact\<close>.
\<close>

fun contract_loop ::
  "Undirected \<Rightarrow> int \<Rightarrow> 'a kargerR_scheme \<Rightarrow> real list \<Rightarrow> panic + ('a kargerR_scheme \<times> real list)" where
  "contract_loop g k ka [] = (if ka_order ka > k then Inl OutOfFuel else Inr (ka, []))"
| "contract_loop g k ka (u # ds) =
     (if ka_order ka > k then
        bindP (Selector_Select (ka_sel ka) u) (\<lambda>(id', err, s).
          if err \<noteq> None then Inr (ka\<lparr>ka_sel := s\<rparr>, ds)
          else (case Edge g id' of
                  None \<Rightarrow> Inl NilDereference
                | Some e \<Rightarrow>
                    bindP (loop (ka\<lparr>ka_sel := s\<rparr>) e) (\<lambda>l.
                      if l then contract_loop g k (ka\<lparr>ka_sel := s\<rparr>) ds
                      else bindP (merge (ka\<lparr>ka_sel := s\<rparr>) e) (\<lambda>ka'. contract_loop g k ka' ds))))
      else Inr (ka, u # ds))"

definition randContract ::
  "Undirected \<Rightarrow> int \<Rightarrow> 'a kargerR_scheme \<Rightarrow> real list \<Rightarrow> panic + ('a kargerR_scheme \<times> real list)" where
  "randContract g k ka ds = contract_loop g k ka ds"

fun cut_edges :: "'a kargerR_scheme \<Rightarrow> edge list \<Rightarrow> edge list \<Rightarrow> real \<Rightarrow> panic + (edge list \<times> real)" where
  "cut_edges ka [] c w = Inr (c, w)"
| "cut_edges ka (e # es) c w =
     bindP (loop ka e) (\<lambda>l. if l then cut_edges ka es c w else cut_edges ka es (c @ [e]) (w + weight e))"

definition randCompact ::
  "Undirected \<Rightarrow> int \<Rightarrow> 'a kargerR_scheme \<Rightarrow> real list \<Rightarrow> panic + ('a kargerR_scheme \<times> real list)" where
  "randCompact g k ka ds =
     bindP (contract_loop g k ka ds) (\<lambda>(ka', ds').
       bindP (cut_edges ka' (g_edges g) [] 0) (\<lambda>(c, w). Inr (ka'\<lparr>ka_c := c, ka_w := w\<rparr>, ds')))"

definition sqrt2 :: real where
  "sqrt2 = 14142135623730950488016887242096980785696718753769480 / 10 ^ 52"

definition contract_target :: "int \<Rightarrow> int" where
  "contract_target order' = \<lceil>real_of_int order' / sqrt2 + 1\<rceil>"

text \<open>
  \<open>kargerR.fastRandMinCut\<close>.  The recursion need not end (a context whose selector is
  empty while more than six supernodes are left calls itself unchanged), so the depth of
  the recursion is bounded by a fuel argument and running out of it is \<open>OutOfFuel\<close>.
\<close>

fun fastRandMinCut :: "nat \<Rightarrow> Undirected \<Rightarrow> kargerR \<Rightarrow> real list \<Rightarrow> panic + (kargerR \<times> real list)" where
  "fastRandMinCut 0 g ka ds = Inl OutOfFuel"
| "fastRandMinCut (Suc n) g ka ds =
     (if ka_order ka \<le> 6 then randCompact g 2 ka ds
      else
        let t = contract_target (ka_order ka); cl = clone ka in
        bindP (randContract g t ka ds) (\<lambda>(a, ds).
        bindP (fastRandMinCut n g a ds) (\<lambda>(sub0, ds).
        bindP (randContract g t cl ds) (\<lambda>(b, ds).
        bindP (fastRandMinCut n g b ds) (\<lambda>(sub1, ds).
          if ka_w sub0 < ka_w sub1 then Inr (sub0, ds) else Inr (sub1, ds))))))"

text \<open>
  \<open>FastRandMinCut\<close>.  \<open>w\<close> starts at \<open>math.Inf(1)\<close>, which is \<open>None\<close> here.  The loop also
  returns the context as the last round left it.
\<close>

definition less_inf :: "real \<Rightarrow> real option \<Rightarrow> bool" where
  "less_inf x w = (case w of None \<Rightarrow> True | Some y \<Rightarrow> x < y)"

fun FastRandMinCut_loop ::
  "nat \<Rightarrow> Undirected \<Rightarrow> nat \<Rightarrow> kargerR \<Rightarrow> edge list \<times> real option \<Rightarrow> real list
     \<Rightarrow> panic + ((edge list \<times> real option) \<times> kargerR \<times> real list)" where
  "FastRandMinCut_loop fuel g 0 ka cw ds = Inr (cw, ka, ds)"
| "FastRandMinCut_loop fuel g (Suc i) ka cw ds =
     bindP (fastRandMinCut fuel g ka ds) (\<lambda>(ka', ds').
       FastRandMinCut_loop fuel g i ka'
         (if less_inf (ka_w ka') (snd cw) then (ka_c ka', Some (ka_w ka')) else cw) ds')"


text \<open>
  \<open>kargerRP.fastRandMinCut\<close> and \<open>ParFastRandMinCut\<close>.  \<open>spawn\<close> is the test
  \<open>ka.count < ka.split\<close> that decides whether the two contractions run as goroutines.
  The model runs them one after the other in both cases, which is one of the schedules
  the goroutines can take, and returns the list of the decisions beside the result, that
  of the call itself first.  \<open>count\<close> goes up by one for each level of the recursion.
\<close>

definition spawn :: "kargerRP \<Rightarrow> bool" where
  "spawn ka = (ka_count ka < ka_split ka)"

fun fastRandMinCutP ::
  "nat \<Rightarrow> Undirected \<Rightarrow> kargerRP \<Rightarrow> real list \<Rightarrow> panic + (kargerRP \<times> real list \<times> bool list)" where
  "fastRandMinCutP 0 g ka ds = Inl OutOfFuel"
| "fastRandMinCutP (Suc n) g ka ds =
     (if ka_order ka \<le> 6 then bindP (randCompact g 2 ka ds) (\<lambda>(ka', ds'). Inr (ka', ds', []))
      else
        let t = contract_target (ka_order ka);
            wg = spawn ka;
            ka = ka\<lparr>ka_count := ka_count ka + 1\<rparr>;
            cl = cloneP ka in
        bindP (randContract g t ka ds) (\<lambda>(a, ds).
        bindP (fastRandMinCutP n g a ds) (\<lambda>(sub0, ds, tr0).
        bindP (randContract g t cl ds) (\<lambda>(b, ds).
        bindP (fastRandMinCutP n g b ds) (\<lambda>(sub1, ds, tr1).
          Inr (if ka_w sub0 < ka_w sub1 then sub0 else sub1, ds, wg # tr0 @ tr1))))))"

fun ParFastRandMinCut_loop ::
  "nat \<Rightarrow> Undirected \<Rightarrow> nat \<Rightarrow> kargerRP \<Rightarrow> edge list \<times> real option \<Rightarrow> real list
     \<Rightarrow> panic + ((edge list \<times> real option) \<times> bool list)" where
  "ParFastRandMinCut_loop fuel g 0 ka cw ds = Inr (cw, [])"
| "ParFastRandMinCut_loop fuel g (Suc i) ka cw ds =
     bindP (fastRandMinCutP fuel g ka ds) (\<lambda>(ka', ds', tr).
       bindP (ParFastRandMinCut_loop fuel g i ka'
           (if less_inf (ka_w ka') (snd cw) then (ka_c ka', Some (ka_w ka')) else cw) ds')
         (\<lambda>(cw', tr'). Inr (cw', tr @ tr')))"

definition ParFastRandMinCut_split :: "int \<Rightarrow> int" where
  "ParFastRandMinCut_split threads = (if threads = 0 then - 1 else threads)"

definition ParFastRandMinCut ::
  "nat \<Rightarrow> Undirected \<Rightarrow> nat \<Rightarrow> int \<Rightarrow> real list
     \<Rightarrow> panic + ((edge list \<times> real option) \<times> bool list)" where
  "ParFastRandMinCut fuel g iter threads ds =
     bindP (init g ((newKargerRP g)\<lparr>ka_split := ParFastRandMinCut_split threads\<rparr>)) (\<lambda>k.
       ParFastRandMinCut_loop fuel g iter k ([], None) ds)"

text \<open>
  \<open>Nodes.BuildUndirected\<close> (\<open>node.go\<close>).  A source node is what the function reads of
  it: its id and its incident edges, each with the address that makes it a key of the
  map \<open>seen\<close>.

  Modelled from the spec: \<open>NewUndirected\<close>, \<open>AddID\<close>, \<open>newEdge\<close> and \<open>newEdgeKeepID\<close> of
  the graph are not among the sources.  \<open>AddID\<close> makes sure a node with the id exists;
  the two edge constructors allocate an edge, append it to the edge array with its index
  and add it to the incidence lists of both endpoints, once for a self-loop; the compact
  one numbers the edge by its index.  What \<open>AddID\<close> does with a negative id the spec does
  not say: that is the parameter \<open>neg\<close>.
\<close>

record src_node =
  src_id :: int
  src_edges :: "(nat \<times> edge) list"

definition NewUndirected :: Undirected where
  "NewUndirected = \<lparr>g_nodes = [], g_edges = []\<rparr>"

definition AddID ::
  "(Undirected \<Rightarrow> int \<Rightarrow> panic + Undirected) \<Rightarrow> Undirected \<Rightarrow> int \<Rightarrow> panic + Undirected" where
  "AddID neg g id' =
     (if id' < 0 then neg g id'
      else if nat id' < length (g_nodes g) \<and> g_nodes g ! nat id' \<noteq> None then Inr g
      else Inr (g\<lparr>g_nodes :=
              (g_nodes g @ replicate (Suc (nat id') - length (g_nodes g)) None)
                [nat id' := Some (newNode id')]\<rparr>))"

definition node_add :: "Undirected \<Rightarrow> int \<Rightarrow> edge \<Rightarrow> panic + Undirected" where
  "node_add g id' e =
     bindP (get_at (g_nodes g) id') (\<lambda>slot.
       case slot of
         None \<Rightarrow> Inl NilDereference
       | Some n \<Rightarrow>
           Inr (g\<lparr>g_nodes := (g_nodes g)[nat id' := Some (n\<lparr>node_edges := node_edges n @ [e]\<rparr>)]\<rparr>))"

definition g_newEdgeKeepID ::
  "Undirected \<Rightarrow> int \<Rightarrow> int \<Rightarrow> int \<Rightarrow> real \<Rightarrow> nat \<Rightarrow> panic + (Undirected \<times> edge)" where
  "g_newEdgeKeepID g id' uid vid w f =
     (let e = newEdge id' (int (length (g_edges g))) (Some uid) (Some vid) w f
      in bindP (node_add (g\<lparr>g_edges := g_edges g @ [e]\<rparr>) uid e) (\<lambda>g1.
           if vid \<noteq> uid then bindP (node_add g1 vid e) (\<lambda>g2. Inr (g2, e)) else Inr (g1, e)))"

definition g_newEdge ::
  "Undirected \<Rightarrow> int \<Rightarrow> int \<Rightarrow> real \<Rightarrow> nat \<Rightarrow> panic + (Undirected \<times> edge)" where
  "g_newEdge g uid vid w f = g_newEdgeKeepID g (int (length (g_edges g))) uid vid w f"

fun build_edges ::
  "(Undirected \<Rightarrow> int \<Rightarrow> panic + Undirected) \<Rightarrow> bool \<Rightarrow> Undirected \<Rightarrow> nat list \<Rightarrow> (nat \<times> edge) list
     \<Rightarrow> panic + (error + Undirected \<times> nat list)" where
  "build_edges neg cpt g seen [] = Inr (Inr (g, seen))"
| "build_edges neg cpt g seen ((a, e) # es) =
     (if a \<in> set seen then build_edges neg cpt g seen es
      else
        bindP (Tail_ID e) (\<lambda>uid. bindP (Head_ID e) (\<lambda>vid.
          if uid < 0 \<or> vid < 0 then Inr (Inl NodeIDOutOfRange)
          else
            bindP (AddID neg g uid) (\<lambda>g1. bindP (AddID neg g1 vid) (\<lambda>g2.
            bindP (if cpt then g_newEdge g2 uid vid (weight e) (flags e)
                   else g_newEdgeKeepID g2 (edge_id e) uid vid (weight e) (flags e)) (\<lambda>(g3, ne).
            bindP (node_add g3 uid ne) (\<lambda>g4.
            bindP (if vid \<noteq> uid then node_add g4 vid ne else Inr g4) (\<lambda>g5.
              build_edges neg cpt g5 (a # seen) es))))))))"

fun build_nodes ::
  "(Undirected \<Rightarrow> int \<Rightarrow> panic + Undirected) \<Rightarrow> bool \<Rightarrow> Undirected \<Rightarrow> nat list \<Rightarrow> src_node list
     \<Rightarrow> panic + (Undirected option \<times> error option)" where
  "build_nodes neg cpt g seen [] = Inr (Some g, None)"
| "build_nodes neg cpt g seen (n # ns) =
     bindP (AddID neg g (src_id n)) (\<lambda>g1.
     bindP (build_edges neg cpt g1 seen (src_edges n)) (\<lambda>r.
       case r of
         Inl err \<Rightarrow> Inr (None, Some err)
       | Inr (g2, seen') \<Rightarrow> build_nodes neg cpt g2 seen' ns))"

definition BuildUndirected ::
  "(Undirected \<Rightarrow> int \<Rightarrow> panic + Undirected) \<Rightarrow> src_node list \<Rightarrow> bool
     \<Rightarrow> panic + (Undirected option \<times> error option)" where
  "BuildUndirected neg ns cpt = build_nodes neg cpt NewUndirected [] ns"

section \<open>Well-formed graphs, reachable contexts and valid cuts\<close>

text \<open>
  What the properties of the contraction assume of a graph: the nodes have distinct ids,
  every edge joins two nodes of the graph, and the edges have distinct ids.
\<close>

definition wf_graph :: "Undirected \<Rightarrow> bool" where
  "wf_graph g \<longleftrightarrow>
     distinct (Nodes g)
   \<and> (\<forall>e\<in>set (g_edges g). \<exists>a\<in>set (Nodes g). \<exists>b\<in>set (Nodes g). edge_u e = Some a \<and> edge_v e = Some b)
   \<and> distinct (map edge_id (g_edges g))"

definition label_of :: "super list \<Rightarrow> int \<Rightarrow> int" where
  "label_of ind i = label (ind ! nat i)"

text \<open>The property of claim C3: as many distinct labels as \<open>order\<close>, and no chains.\<close>

definition labels_ok :: "Undirected \<Rightarrow> 'a kargerR_scheme \<Rightarrow> bool" where
  "labels_ok g ka \<longleftrightarrow>
     int (card (label_of (ka_ind ka) ` set (Nodes g))) = ka_order ka
   \<and> (\<forall>i\<in>set (Nodes g). label_of (ka_ind ka) (label_of (ka_ind ka) i) = label_of (ka_ind ka) i)"

text \<open>
  The contexts a contraction can reach: the one \<open>init\<close> makes, and from a context any
  other with the same overlay (\<open>order\<close> and \<open>ind\<close>: a draw from the selector, a clone, a
  new cut) and the one a merge of an edge of the graph that is not a loop makes.
\<close>

inductive contracting :: "Undirected \<Rightarrow> 'a kargerR_scheme \<Rightarrow> bool" for g :: Undirected where
  start: "init g ka0 = Inr ka \<Longrightarrow> contracting g ka"
| frame: "contracting g ka \<Longrightarrow> ka_order ka' = ka_order ka \<Longrightarrow> ka_ind ka' = ka_ind ka \<Longrightarrow>
          contracting g ka'"
| merged: "contracting g ka \<Longrightarrow> e \<in> set (g_edges g) \<Longrightarrow> loop ka e = Inr False \<Longrightarrow>
           merge ka e = Inr ka' \<Longrightarrow> contracting g ka'"

text \<open>The invariant behind it: the member lists are the classes of the labels.\<close>

definition members_ok :: "int set \<Rightarrow> super list \<Rightarrow> bool" where
  "members_ok V ind \<longleftrightarrow>
     (\<forall>i\<in>V. 0 \<le> i \<and> nat i < length ind)
   \<and> (\<forall>i\<in>V. label_of ind i \<in> V \<and> label_of ind (label_of ind i) = label_of ind i)
   \<and> (\<forall>r\<in>label_of ind ` V.
        case nodes (ind ! nat r) of
          None \<Rightarrow> {i\<in>V. label_of ind i = r} = {r}
        | Some ms \<Rightarrow> set ms = {i\<in>V. label_of ind i = r})"

definition ctx_inv :: "Undirected \<Rightarrow> 'a kargerR_scheme \<Rightarrow> bool" where
  "ctx_inv g ka \<longleftrightarrow>
     members_ok (set (Nodes g)) (ka_ind ka)
   \<and> int (card (label_of (ka_ind ka) ` set (Nodes g))) = ka_order ka"




text \<open>The cut a context holds is the one its labels give.\<close>

definition cut_ok :: "Undirected \<Rightarrow> 'a kargerR_scheme \<Rightarrow> bool" where
  "cut_ok g ka \<longleftrightarrow>
     ka_c ka = filter (\<lambda>e. loop ka e = Inr False) (g_edges g)
   \<and> ka_w ka = sum_list (map weight (ka_c ka))"

section \<open>Example inputs\<close>

definition sel4 :: Selector where
  "sel4 = [\<lparr>Index = 10, Weight = 1, total = 0\<rparr>, \<lparr>Index = 11, Weight = 2, total = 9\<rparr>,
           \<lparr>Index = 12, Weight = 3, total = 0\<rparr>, \<lparr>Index = 13, Weight = 4, total = 0\<rparr>]"

definition mk_graph :: "nat \<Rightarrow> (int \<times> int \<times> real) list \<Rightarrow> Undirected" where
  "mk_graph n es =
     (let edges = map (\<lambda>(i, (u, v, w)). newEdge (int i) (int i) (Some u) (Some v) w 0)
                      (enumerate 0 es)
      in \<lparr>g_nodes = map (\<lambda>i. Some \<lparr>node_id = int i, node_i = int i,
                                 node_edges = filter (\<lambda>e. edge_u e = Some (int i) \<or> edge_v e = Some (int i)) edges\<rparr>)
                       [0..<n],
          g_edges = edges\<rparr>)"

definition triangle :: Undirected where
  "triangle = mk_graph 3 [(0, 1, 1), (1, 2, 1), (0, 2, 1)]"



definition path7 :: Undirected where
  "path7 = mk_graph 7 [(0, 1, 1), (1, 2, 1), (2, 3, 1), (3, 4, 1), (4, 5, 1), (5, 6, 1)]"

definition draws12 :: "real list" where
  "draws12 = [1/2, 1/3, 1/2, 1/3, 1/2, 1/3, 1/2, 1/3, 1/2, 1/3, 1/2, 1/3]"

definition triangle_ctx0 :: kargerR where
  "triangle_ctx0 =
     \<lparr>ka_order = 3,
      ka_ind = [\<lparr>label = 0, nodes = None\<rparr>, \<lparr>label = 1, nodes = None\<rparr>, \<lparr>label = 2, nodes = None\<rparr>],
      ka_sel = [\<lparr>Index = 0, Weight = 1, total = 3\<rparr>, \<lparr>Index = 1, Weight = 1, total = 1\<rparr>,
                \<lparr>Index = 2, Weight = 1, total = 1\<rparr>],
      ka_c = [], ka_w = 0\<rparr>"

definition triangle_ctx1 :: kargerR where
  "triangle_ctx1 =
     \<lparr>ka_order = 2,
      ka_ind = [\<lparr>label = 0, nodes = None\<rparr>, \<lparr>label = 2, nodes = None\<rparr>,
                \<lparr>label = 2, nodes = Some [2, 1]\<rparr>],
      ka_sel = [\<lparr>Index = 0, Weight = 1, total = 2\<rparr>, \<lparr>Index = 1, Weight = 0, total = 0\<rparr>,
                \<lparr>Index = 2, Weight = 1, total = 1\<rparr>],
      ka_c = [newEdge 0 0 (Some 0) (Some 1) 1 0, newEdge 2 2 (Some 0) (Some 2) 1 0], ka_w = 2\<rparr>"


section \<open>Properties of the selector\<close>

lemma length_Init_loop [simp]: "length (Init_loop k s) = length s"
  by (induction k arbitrary: s) simp_all



lemma reset_total_idem [simp]: "reset_total (reset_total x) = reset_total x"
  by (simp add: reset_total_def)






lemma length_propagate [simp]: "length (propagate s w i) = length s"
  by (induction s w i rule: propagate.induct) (subst propagate.simps, simp)




lemma propagate_0 [simp]: "propagate s w 0 = s"
  by (subst propagate.simps) simp









lemma Init_sel4: "Selector_Init sel4 =
   [\<lparr>Index = 10, Weight = 1, total = 10\<rparr>, \<lparr>Index = 11, Weight = 2, total = 6\<rparr>,
    \<lparr>Index = 12, Weight = 3, total = 3\<rparr>, \<lparr>Index = 13, Weight = 4, total = 4\<rparr>]"
  by (simp add: sel4_def Selector_Init_def reset_total_def numeral_3_eq_3)

lemma Select_sel4: "Selector_Select (Selector_Init sel4) (1/2) = Inr (13, None,
   [\<lparr>Index = 10, Weight = 1, total = 6\<rparr>, \<lparr>Index = 11, Weight = 2, total = 2\<rparr>,
    \<lparr>Index = 12, Weight = 3, total = 3\<rparr>, \<lparr>Index = 13, Weight = 0, total = 0\<rparr>])"
  by (simp add: Init_sel4 Selector_Select_def bindP_def descend.simps propagate.simps)



text \<open>
  Claim C7.  On a selector that is not empty, \<open>Select\<close> returns \<open>SelectorEmpty\<close> exactly
  when the total of the root is zero, then with index \<open>-1\<close> and the selector unchanged;
  with any other root total a returned error is \<open>nil\<close>; and no other error value is ever
  returned.
\<close>

theorem Select_errors:
  assumes "s \<noteq> []"
  shows "(total (s ! 0) = 0 \<longrightarrow> Selector_Select s u = Inr (- 1, Some SelectorEmpty, s))
       \<and> (total (s ! 0) \<noteq> 0 \<longrightarrow> (\<forall>idx e s'. Selector_Select s u = Inr (idx, e, s') \<longrightarrow> e = None))
       \<and> (\<forall>idx e s'. Selector_Select s u = Inr (idx, Some e, s') \<longrightarrow> e = SelectorEmpty)"
  using assms by (auto simp: Selector_Select_def bindP_def split: sum.splits if_splits)

theorem Select_errors_witness:
  "[\<lparr>Index = 5, Weight = 0, total = 0\<rparr>] \<noteq> []
   \<and> Selector_Select [\<lparr>Index = 5, Weight = 0, total = 0\<rparr>] (1/2)
       = Inr (- 1, Some SelectorEmpty, [\<lparr>Index = 5, Weight = 0, total = 0\<rparr>])
   \<and> Selector_Init sel4 \<noteq> [] \<and> total (Selector_Init sel4 ! 0) \<noteq> 0
   \<and> Selector_Select (Selector_Init sel4) (1/2) = Inr (13, None,
     [\<lparr>Index = 10, Weight = 1, total = 6\<rparr>, \<lparr>Index = 11, Weight = 2, total = 2\<rparr>,
      \<lparr>Index = 12, Weight = 3, total = 3\<rparr>, \<lparr>Index = 13, Weight = 0, total = 0\<rparr>])"
  using Select_errors [of "[\<lparr>Index = 5, Weight = 0, total = 0\<rparr>]" "1/2"]
    Select_errors [of "Selector_Init sel4" "1/2"] Select_sel4
  by (simp add: Init_sel4)

section \<open>Properties of the partition\<close>

lemma wrap64_id: "is_int64 x \<Longrightarrow> wrap64 x = x"
  by (simp add: wrap64_def is_int64_def)

lemma wrap64_wrap64_add: "wrap64 (wrap64 x + y) = wrap64 (x + y)"
proof -
  have "(x + 2 ^ 63) mod 2 ^ 64 - 2 ^ 63 + y + 2 ^ 63 = (x + 2 ^ 63) mod 2 ^ 64 + y" for x y :: int
    by simp
  then have "wrap64 (wrap64 x + y) = ((x + 2 ^ 63) mod 2 ^ 64 + y) mod 2 ^ 64 - 2 ^ 63"
    unfolding wrap64_def by simp
  also have "\<dots> = (x + 2 ^ 63 + y) mod 2 ^ 64 - 2 ^ 63"
    by (simp only: mod_add_left_eq)
  also have "\<dots> = wrap64 (x + y)"
    unfolding wrap64_def by (simp only: add.assoc add.commute [of y])
  finally show ?thesis .
qed

lemma wrap64_minus_1: "wrap64 (- 1) = - 1"
  by (simp add: wrap64_def)

lemma is_int64_mono: "is_int64 a \<Longrightarrow> 0 \<le> b \<Longrightarrow> b \<le> a \<Longrightarrow> is_int64 b"
  by (simp add: is_int64_def)

lemma is_int64_half: "is_int64 a \<Longrightarrow> 0 \<le> q \<Longrightarrow> 2 * q \<le> a \<Longrightarrow> is_int64 (q + 1)"
  by (simp add: is_int64_def)

lemma partition_loop_neg:
  "rem < 0 \<Longrightarrow> partition_loop n iter rem = replicate n iter"
  by (induction n) simp_all

lemma partition_loop_eq:
  "0 \<le> rem \<Longrightarrow> rem < int n \<Longrightarrow> is_int64 rem \<Longrightarrow> wrap64 (it - 1) = q \<Longrightarrow>
   partition_loop n it rem = replicate (nat rem) it @ replicate (n - nat rem) q"
proof (induction n arbitrary: rem)
  case 0
  then show ?case by simp
next
  case (Suc n)
  show ?case
  proof (cases "rem = 0")
    case True
    show ?thesis using True Suc.prems by (simp add: partition_loop_neg wrap64_minus_1)
  next
    case False
    then have pos: "0 < rem" using Suc.prems by simp
    have r1: "is_int64 (rem - 1)"
      by (rule is_int64_mono [OF Suc.prems(3)]) (use pos in simp_all)
    have w: "wrap64 (rem - 1) = rem - 1" by (rule wrap64_id [OF r1])
    have ih: "partition_loop n it (rem - 1) =
        replicate (nat (rem - 1)) it @ replicate (n - nat (rem - 1)) q"
      by (rule Suc.IH [OF _ _ r1 Suc.prems(4)]) (use Suc.prems pos in simp_all)
    have n1: "nat rem = Suc (nat (rem - 1))" using pos by simp
    show ?thesis using False pos Suc.prems
      by (simp add: w ih Let_def) (simp add: n1)
  qed
qed

text \<open>
  Claim C8.  For \<open>iter \<ge> 1\<close>, \<open>thread \<ge> 1\<close> and \<open>MaxProcs \<ge> 1\<close> the number of workers is
  \<open>T = min thread (min MaxProcs iter)\<close>; the loop starts exactly \<open>T\<close> workers, each with
  \<open>iter div T\<close> or \<open>iter div T + 1\<close> rounds, and the rounds sum to \<open>iter\<close>.  This holds
  with 64-bit wrap-around, also at \<open>iter = 2^63 - 1\<close>.
\<close>

theorem FastRandMinCutPar_partition:
  assumes "1 \<le> iter" "is_int64 iter" "1 \<le> thread" "is_int64 thread" "1 \<le> MaxProcs"
  shows "\<exists>ws. FastRandMinCutPar_iters MaxProcs iter thread = Inr ws
      \<and> clamp_thread MaxProcs iter thread = min thread (min MaxProcs iter)
      \<and> int (length ws) = min thread (min MaxProcs iter)
      \<and> sum_list ws = iter
      \<and> (\<forall>w\<in>set ws. w = iter div min thread (min MaxProcs iter)
                   \<or> w = iter div min thread (min MaxProcs iter) + 1)"
proof -
  define T where "T = clamp_thread MaxProcs iter thread"
  have T: "T = min thread (min MaxProcs iter)" by (auto simp: T_def clamp_thread_def Let_def)
  have T1: "1 \<le> T" "T \<le> iter" using assms by (auto simp: T)
  define q where "q = iter div T"
  define r where "r = iter mod T"
  have sd: "iter sdiv T = q" "iter smod T = r"
    using T1 assms by (simp_all add: q_def r_def signed_divide_int_def signed_modulo_int_def sgn_if)
  have r: "0 \<le> r" "r < T" using T1 by (simp_all add: r_def)
  have q0: "0 \<le> q" using T1 assms by (simp add: q_def pos_imp_zdiv_nonneg_iff)
  have "iter div T \<le> iter div 1" using T1 assms by (intro zdiv_mono2) simp_all
  then have q1: "q \<le> iter" by (simp add: q_def)
  have q64: "is_int64 q" by (rule is_int64_mono [OF assms(2) q0 q1])
  define it where "it = wrap64 (wrap64 q + 1)"
  have it1: "wrap64 (it - 1) = q"
  proof -
    have "it = wrap64 (q + 1)" unfolding it_def by (rule wrap64_wrap64_add)
    then have "wrap64 (it - 1) = wrap64 (wrap64 (q + 1) + (- 1))" by simp
    also have "\<dots> = wrap64 (q + 1 + (- 1))" by (rule wrap64_wrap64_add)
    also have "\<dots> = wrap64 q" by simp
    finally show ?thesis using q64 by (simp add: wrap64_id)
  qed
  have it2: "it = q + 1" if "0 < r"
  proof -
    from that r have "2 \<le> T" by simp
    then have "iter div T \<le> iter div 2" using assms by (intro zdiv_mono2) simp_all
    moreover have "2 * (iter div 2) \<le> iter" by simp
    ultimately have "2 * q \<le> iter" by (simp add: q_def)
    then have "is_int64 (q + 1)" by (rule is_int64_half [OF assms(2) q0])
    then show ?thesis using q64 by (simp add: it_def wrap64_id)
  qed
  have "r \<le> iter" using r T1 by simp
  then have r64: "is_int64 r" by (rule is_int64_mono [OF assms(2) r(1)])
  define ws where "ws = replicate (nat r) it @ replicate (nat T - nat r) q"
  have run: "FastRandMinCutPar_iters MaxProcs iter thread = Inr ws"
    using T1 r partition_loop_eq [of r "nat T" it q, OF _ _ r64 it1]
    by (simp add: FastRandMinCutPar_iters_def T_def [symmetric] sd Let_def it_def ws_def)
  have len: "int (length ws) = T" using r T1 by (simp add: ws_def)
  have sum: "sum_list ws = iter"
  proof (cases "0 < r")
    case True
    have "sum_list ws = r * (q + 1) + (T - r) * q"
      using r T1 it2 [OF True] by (simp add: ws_def sum_list_replicate nat_diff_distrib)
    also have "\<dots> = T * q + r" by (simp add: algebra_simps)
    also have "\<dots> = iter" by (simp add: q_def r_def)
    finally show ?thesis .
  next
    case False
    then have r0: "r = 0" using r by simp
    have "sum_list ws = T * q" using T1 by (simp add: ws_def r0 sum_list_replicate)
    also have "\<dots> = iter" using r0 unfolding q_def r_def by (simp add: mod_eq_0_iff_dvd)
    finally show ?thesis .
  qed
  have each: "\<forall>w\<in>set ws. w = iter div T \<or> w = iter div T + 1"
    using it2 by (auto simp: ws_def q_def split: if_splits)
  show ?thesis using run len sum each T unfolding T_def by simp
qed

theorem FastRandMinCutPar_partition_witness:
  "(1::int) \<le> 10 \<and> is_int64 10 \<and> (1::int) \<le> 3 \<and> is_int64 3 \<and> (1::int) \<le> 4
   \<and> FastRandMinCutPar_iters 4 10 3 = Inr [4, 3, 3]
   \<and> clamp_thread 4 10 3 = 3 \<and> sum_list [4, 3, 3::int] = 10"
  using FastRandMinCutPar_partition [of 10 3 4]
  by (simp add: is_int64_def FastRandMinCutPar_iters_def clamp_thread_def wrap64_def
      signed_divide_int_def signed_modulo_int_def numeral_3_eq_3)

text \<open>
  Claim C10, as amended.  With \<open>MaxProcs \<ge> 1\<close>: when \<open>iter = 0\<close> and \<open>thread \<ge> 0\<close>, or
  \<open>thread = 0\<close> and \<open>iter \<ge> 0\<close>, the clamped worker count is \<open>0\<close> and \<open>iter/thread\<close>
  panics with a division by zero; when \<open>iter \<ge> 1\<close> and \<open>thread \<ge> 1\<close> the worker count is
  not \<open>0\<close> and that panic cannot happen.
\<close>

theorem FastRandMinCutPar_divide_by_zero:
  assumes "1 \<le> MaxProcs"
  shows "((iter = 0 \<and> 0 \<le> thread) \<or> (thread = 0 \<and> 0 \<le> iter) \<longrightarrow>
            clamp_thread MaxProcs iter thread = 0
          \<and> FastRandMinCutPar_iters MaxProcs iter thread = Inl DivideByZero)
       \<and> (1 \<le> iter \<and> 1 \<le> thread \<longrightarrow>
            clamp_thread MaxProcs iter thread \<noteq> 0
          \<and> FastRandMinCutPar_iters MaxProcs iter thread \<noteq> Inl DivideByZero)"
proof -
  have z: "clamp_thread MaxProcs iter thread = 0"
    if "(iter = 0 \<and> 0 \<le> thread) \<or> (thread = 0 \<and> 0 \<le> iter)"
    using that assms by (auto simp: clamp_thread_def Let_def)
  have nz: "clamp_thread MaxProcs iter thread \<noteq> 0" if "1 \<le> iter \<and> 1 \<le> thread"
    using that assms by (auto simp: clamp_thread_def Let_def)
  have d: "FastRandMinCutPar_iters MaxProcs iter thread = Inl DivideByZero
      \<longleftrightarrow> clamp_thread MaxProcs iter thread = 0"
    by (simp add: FastRandMinCutPar_iters_def Let_def)
  show ?thesis using z nz d by blast
qed

theorem FastRandMinCutPar_divide_by_zero_witness:
  "(1::int) \<le> 4
   \<and> clamp_thread 4 0 3 = 0 \<and> FastRandMinCutPar_iters 4 0 3 = Inl DivideByZero
   \<and> clamp_thread 4 5 0 = 0 \<and> FastRandMinCutPar_iters 4 5 0 = Inl DivideByZero
   \<and> clamp_thread 4 10 3 = 3 \<and> FastRandMinCutPar_iters 4 10 3 \<noteq> Inl DivideByZero"
  using FastRandMinCutPar_divide_by_zero [of 4 0 3] FastRandMinCutPar_divide_by_zero [of 4 5 0]
    FastRandMinCutPar_divide_by_zero [of 4 10 3]
  by (simp add: clamp_thread_def)

text \<open>
  The claim C10 as first stated fails when the other argument is negative: with
  \<open>iter = 0\<close> and \<open>thread = -1\<close> the worker count stays \<open>-1\<close>, \<open>0 / -1\<close> is \<open>0\<close>, and the
  function stops in \<open>make\<close> with a negative length instead.
\<close>

theorem FastRandMinCutPar_zero_iter_negative_thread:
  "clamp_thread 4 0 (- 1) = - 1
   \<and> FastRandMinCutPar_iters 4 0 (- 1) = Inl NegativeLen
   \<and> \<not> (clamp_thread 4 0 (- 1) = 0 \<and> FastRandMinCutPar_iters 4 0 (- 1) = Inl DivideByZero)"
  by (simp add: clamp_thread_def FastRandMinCutPar_iters_def)

section \<open>Evaluations of the drivers\<close>

lemma triangle_init: "init triangle (newKargerR triangle) = Inr triangle_ctx0"
  by code_simp

lemma triangle_round1: "fastRandMinCut 5 triangle triangle_ctx0 [1/2] = Inr (triangle_ctx1, [])"
  by code_simp

lemma triangle_round2: "fastRandMinCut 5 triangle triangle_ctx1 [] = Inr (triangle_ctx1, [])"
  by code_simp

text \<open>
  Claim C1.  \<open>FastRandMinCut\<close> calls \<open>init\<close> once, before its loop, so a round starts
  from the context the round before left.  On the triangle with two rounds and the draw
  \<open>1/2\<close>, the second round starts from a context of order \<open>2\<close> with the labels
  \<open>0, 2, 2\<close> and a used selector, not from the initial one of order \<open>3\<close>, and it
  contracts nothing: it returns the context it was given.
\<close>

theorem FastRandMinCut_second_round_context:
  "init triangle (newKargerR triangle) = Inr triangle_ctx0
   \<and> FastRandMinCut_loop 5 triangle 2 triangle_ctx0 ([], None) [1/2]
       = FastRandMinCut_loop 5 triangle 1 triangle_ctx1 (ka_c triangle_ctx1, Some (ka_w triangle_ctx1)) []
   \<and> triangle_ctx1 \<noteq> triangle_ctx0
   \<and> ka_order triangle_ctx1 = 2 \<and> Order triangle = 3
   \<and> map label (ka_ind triangle_ctx1) = [0, 2, 2]
   \<and> fastRandMinCut 5 triangle triangle_ctx1 [] = Inr (triangle_ctx1, [])"
proof -
  have two: "(2::nat) = Suc 1" by simp
  have "FastRandMinCut_loop 5 triangle 2 triangle_ctx0 ([], None) [1/2]
       = FastRandMinCut_loop 5 triangle 1 triangle_ctx1 (ka_c triangle_ctx1, Some (ka_w triangle_ctx1)) []"
    unfolding two by (simp add: triangle_round1 bindP_def less_inf_def)
  moreover have "Order triangle = 3" by code_simp
  moreover have "triangle_ctx1 \<noteq> triangle_ctx0" by (simp add: triangle_ctx0_def triangle_ctx1_def)
  ultimately show ?thesis
    using triangle_init triangle_round2 by (simp add: triangle_ctx1_def)
qed

text \<open>
  Claim C2.  With a split budget of \<open>0\<close>, \<open>ParFastRandMinCut\<close> sets \<open>split\<close> to \<open>-1\<close>, and
  \<open>count < split\<close> is then false: on a path of seven nodes the call of
  \<open>fastRandMinCut\<close> at order \<open>7\<close> does not spawn.  The lemma
  \<open>ParFastRandMinCut_no_spawn\<close> below shows the same for every graph and every call.
\<close>

theorem ParFastRandMinCut_zero_budget_sequential:
  "Order path7 = 7
   \<and> ParFastRandMinCut_split 0 = - 1
   \<and> ParFastRandMinCut 5 path7 1 0 draws12
       = Inr (([newEdge 5 5 (Some 5) (Some 6) 1 0], Some 1), [False])"
  by code_simp

lemma merge_more: "merge ka e = Inr ka' \<Longrightarrow> kargerR.more ka' = kargerR.more ka"
  by (auto simp: merge_def bindP_def Let_def split: sum.splits)

lemma contract_loop_more:
  "contract_loop g k ka ds = Inr (ka', ds') \<Longrightarrow> kargerR.more ka' = kargerR.more ka"
proof (induction ds arbitrary: ka)
  case Nil
  then show ?case by (simp split: if_splits)
next
  case (Cons u ds)
  show ?case
  proof (cases "ka_order ka > k")
    case False
    with Cons.prems show ?thesis by simp
  next
    case True
    with Cons.prems obtain id' err s where
      sel: "Selector_Select (ka_sel ka) u = Inr (id', err, s)"
      by (auto simp: bindP_def split: sum.splits)
    show ?thesis
    proof (cases err)
      case (Some a)
      with Cons.prems True sel show ?thesis by (auto simp: bindP_def)
    next
      case None
      with Cons.prems True sel obtain e l where e: "Edge g id' = Some e"
        and l: "loop (ka\<lparr>ka_sel := s\<rparr>) e = Inr l"
        by (auto simp: bindP_def split: option.splits sum.splits)
      show ?thesis
      proof (cases l)
        case True
        with Cons.prems \<open>ka_order ka > k\<close> sel None e l
        have "contract_loop g k (ka\<lparr>ka_sel := s\<rparr>) ds = Inr (ka', ds')"
          by (simp add: bindP_def)
        from Cons.IH [OF this] show ?thesis by simp
      next
        case False
        with Cons.prems \<open>ka_order ka > k\<close> sel None e l obtain ka1 where
          m: "merge (ka\<lparr>ka_sel := s\<rparr>) e = Inr ka1" and
          r: "contract_loop g k ka1 ds = Inr (ka', ds')"
          by (auto simp: bindP_def split: sum.splits)
        from Cons.IH [OF r] merge_more [OF m] show ?thesis by simp
      qed
    qed
  qed
qed

lemma randContract_more:
  "randContract g k ka ds = Inr (ka', ds') \<Longrightarrow> kargerR.more ka' = kargerR.more ka"
  unfolding randContract_def by (rule contract_loop_more)

lemma randCompact_more:
  "randCompact g k ka ds = Inr (ka', ds') \<Longrightarrow> kargerR.more ka' = kargerR.more ka"
proof -
  assume "randCompact g k ka ds = Inr (ka', ds')"
  then obtain a c w where l: "contract_loop g k ka ds = Inr (a, ds')" and k: "ka' = a\<lparr>ka_c := c, ka_w := w\<rparr>"
    by (auto simp: randCompact_def bindP_def split: sum.splits)
  from contract_loop_more [OF l] k show ?thesis by simp
qed

lemma more_count_split:
  "kargerR.more ka' = kargerR.more ka \<Longrightarrow>
   ka_count ka' = ka_count (ka::kargerRP) \<and> ka_split ka' = ka_split ka"
  by (cases ka, cases ka') simp

lemma fastRandMinCutP_no_spawn:
  "fastRandMinCutP n g ka ds = Inr (ka', ds', tr) \<Longrightarrow> ka_split ka \<le> 0 \<Longrightarrow> 0 \<le> ka_count ka \<Longrightarrow>
   (\<forall>b\<in>set tr. \<not> b) \<and> ka_split ka' \<le> 0 \<and> 0 \<le> ka_count ka'"
proof (induction n arbitrary: ka ds ka' ds' tr)
  case 0
  then show ?case by simp
next
  case (Suc n)
  show ?case
  proof (cases "ka_order ka \<le> 6")
    case True
    with Suc.prems obtain ds1 where "randCompact g 2 ka ds = Inr (ka', ds1)" and "tr = []"
      by (auto simp: bindP_def split: sum.splits)
    with more_count_split [OF randCompact_more] Suc.prems show ?thesis by auto
  next
    case False
    define k1 where "k1 = ka\<lparr>ka_count := ka_count ka + 1\<rparr>"
    from Suc.prems(1) False obtain a d1 sub0 d2 tr0 b d3 sub1 tr1 where
      a: "randContract g (contract_target (ka_order ka)) k1 ds = Inr (a, d1)" and
      s0: "fastRandMinCutP n g a d1 = Inr (sub0, d2, tr0)" and
      b: "randContract g (contract_target (ka_order ka)) (cloneP k1) d2 = Inr (b, d3)" and
      s1: "fastRandMinCutP n g b d3 = Inr (sub1, ds', tr1)" and
      res: "ka' = (if ka_w sub0 < ka_w sub1 then sub0 else sub1)" and
      tr: "tr = spawn ka # tr0 @ tr1"
      by (auto simp: bindP_def Let_def k1_def split: sum.splits)
    have k1: "ka_split k1 \<le> 0" "0 \<le> ka_count k1" using Suc.prems by (simp_all add: k1_def)
    have a': "ka_split a \<le> 0" "0 \<le> ka_count a"
      using more_count_split [OF randContract_more [OF a]] k1 by simp_all
    have b': "ka_split b \<le> 0" "0 \<le> ka_count b"
      using more_count_split [OF randContract_more [OF b]] k1 by (simp_all add: cloneP_def)
    have ns: "\<not> spawn ka" using Suc.prems by (simp add: spawn_def)
    from Suc.IH [OF s0 a'] Suc.IH [OF s1 b'] ns show ?thesis by (auto simp: res tr)
  qed
qed

lemma ParFastRandMinCut_loop_no_spawn:
  "ParFastRandMinCut_loop fuel g i ka cw ds = Inr (cw', tr) \<Longrightarrow> ka_split ka \<le> 0 \<Longrightarrow> 0 \<le> ka_count ka \<Longrightarrow>
   \<forall>b\<in>set tr. \<not> b"
proof (induction i arbitrary: ka cw ds cw' tr)
  case 0
  then show ?case by simp
next
  case (Suc i)
  from Suc.prems(1) obtain ka1 d1 tr1 tr2 where
    f: "fastRandMinCutP fuel g ka ds = Inr (ka1, d1, tr1)" and
    l: "ParFastRandMinCut_loop fuel g i ka1
          (if less_inf (ka_w ka1) (snd cw) then (ka_c ka1, Some (ka_w ka1)) else cw) d1 = Inr (cw', tr2)" and
    tr: "tr = tr1 @ tr2"
    by (auto simp: bindP_def split: sum.splits)
  from fastRandMinCutP_no_spawn [OF f Suc.prems(2,3)] Suc.IH [OF l] show ?case
    by (auto simp: tr)
qed

lemma init_more: "init g ka = Inr ka' \<Longrightarrow> kargerR.more ka' = kargerR.more ka"
  by (auto simp: init_def bindP_def split: sum.splits)

lemma ParFastRandMinCut_no_spawn:
  "ParFastRandMinCut fuel g iter 0 ds = Inr (cw, tr) \<Longrightarrow> \<forall>b\<in>set tr. \<not> b"
proof -
  assume r: "ParFastRandMinCut fuel g iter 0 ds = Inr (cw, tr)"
  then obtain k where i: "init g ((newKargerRP g)\<lparr>ka_split := - 1\<rparr>) = Inr k"
    and l: "ParFastRandMinCut_loop fuel g iter k ([], None) ds = Inr (cw, tr)"
    by (auto simp: ParFastRandMinCut_def ParFastRandMinCut_split_def bindP_def split: sum.splits)
  from more_count_split [OF init_more [OF i]] have "ka_split k \<le> 0" "0 \<le> ka_count k"
    by (simp_all add: newKargerRP_def)
  from ParFastRandMinCut_loop_no_spawn [OF l this] show ?thesis .
qed

text \<open>
  Claim C9.  A source node with the id \<open>-1\<close> and no incident edge never meets the test
  \<open>uid < 0 || vid < 0\<close>, which stands inside the loop over the edges: whatever \<open>AddID\<close>
  does with the negative id, \<open>BuildUndirected\<close> does not return \<open>NodeIDOutOfRange\<close>.  It
  panics where \<open>AddID\<close> panics and returns a graph and a \<open>nil\<close> error otherwise.
\<close>

theorem BuildUndirected_negative_isolated_node:
  "\<forall>neg cpt. BuildUndirected neg [\<lparr>src_id = - 1, src_edges = []\<rparr>] cpt
      \<noteq> Inr (None, Some NodeIDOutOfRange)"
  by (auto simp: BuildUndirected_def AddID_def bindP_def split: sum.splits)

lemma BuildUndirected_negative_isolated_node_result:
  "BuildUndirected neg [\<lparr>src_id = - 1, src_edges = []\<rparr>] cpt =
     (case neg NewUndirected (- 1) of Inl p \<Rightarrow> Inl p | Inr g \<Rightarrow> Inr (Some g, None))"
  by (auto simp: BuildUndirected_def AddID_def bindP_def split: sum.splits)

section \<open>Properties of the contraction\<close>

lemma bindP_Inr_iff: "bindP m f = Inr y \<longleftrightarrow> (\<exists>x. m = Inr x \<and> f x = Inr y)"
  by (cases m) (simp_all add: bindP_def)

lemma get_at_Inr_iff: "get_at xs i = Inr x \<longleftrightarrow> 0 \<le> i \<and> nat i < length xs \<and> x = xs ! nat i"
  by (auto simp: get_at_def)

lemma get_at_in: "0 \<le> i \<Longrightarrow> nat i < length xs \<Longrightarrow> get_at xs i = Inr (xs ! nat i)"
  by (auto simp: get_at_def)

lemma relabel_spec:
  assumes "\<forall>i\<in>set ms. 0 \<le> i \<and> nat i < length ind" "0 \<le> hid" "nat hid < length ind"
  shows "\<exists>ind'. relabel ind hid ms = Inr ind' \<and> length ind' = length ind
     \<and> (\<forall>j<length ind. label (ind' ! j) = (if int j \<in> set ms then label (ind ! nat hid) else label (ind ! j))
                      \<and> nodes (ind' ! j) = nodes (ind ! j))"
  using assms
proof (induction ms arbitrary: ind)
  case Nil
  then show ?case by simp
next
  case (Cons i ms)
  define c where "c = label (ind ! nat hid)"
  define ind1 where "ind1 = ind[nat i := (ind ! nat i)\<lparr>label := c\<rparr>]"
  have i: "0 \<le> i" "nat i < length ind" using Cons.prems by simp_all
  have step: "relabel ind hid (i # ms) = relabel ind1 hid ms"
    using i Cons.prems by (simp add: bindP_def get_at_in ind1_def c_def)
  have len1: "length ind1 = length ind" by (simp add: ind1_def)
  have c1: "label (ind1 ! nat hid) = c"
    using Cons.prems by (cases "nat i = nat hid") (simp_all add: ind1_def c_def)
  have "\<forall>i\<in>set ms. 0 \<le> i \<and> nat i < length ind1" using Cons.prems by (simp add: len1)
  from Cons.IH [OF this Cons.prems(2)] Cons.prems(3) obtain ind' where
    r: "relabel ind1 hid ms = Inr ind'" and l: "length ind' = length ind1" and
    s: "\<forall>j<length ind1. label (ind' ! j) = (if int j \<in> set ms then label (ind1 ! nat hid) else label (ind1 ! j))
                      \<and> nodes (ind' ! j) = nodes (ind1 ! j)"
    by (auto simp: len1)
  have "label (ind' ! j) = (if int j \<in> set (i # ms) then label (ind ! nat hid) else label (ind ! j))
        \<and> nodes (ind' ! j) = nodes (ind ! j)" if j: "j < length ind" for j
  proof (cases "j = nat i")
    case True
    then have "int j = i" using i by simp
    then show ?thesis using s j True i by (simp add: len1 c1) (simp add: ind1_def c_def)
  next
    case False
    then have "int j \<noteq> i" by auto
    then show ?thesis using s j False by (simp add: len1 c1) (simp add: ind1_def c_def)
  qed
  then show ?case using step r l len1 by simp
qed

lemma super_nodes_id [simp]: "nodes s = x \<Longrightarrow> s\<lparr>nodes := x\<rparr> = s"
  by (cases s) simp

lemma list_update_other_id: "a \<noteq> b \<Longrightarrow> xs[a := x, b := xs ! b] = xs[a := x]"
  by (metis list_update_id nth_list_update_neq)

lemma absorb_eq:
  assumes "nat hl \<noteq> nat tl'" "nat hl < length ind" "nat tl' < length ind"
  shows "absorb ind hid tid hl tl' =
     relabel (ind[nat hl := (ind ! nat hl)\<lparr>nodes := Some
                  ((case nodes (ind ! nat hl) of None \<Rightarrow> [hid] | Some ms \<Rightarrow> ms)
                 @ (case nodes (ind ! nat tl') of None \<Rightarrow> [tid] | Some tn \<Rightarrow> tn))\<rparr>,
                  nat tl' := (ind ! nat tl')\<lparr>nodes := None\<rparr>])
       hid ((case nodes (ind ! nat hl) of None \<Rightarrow> [hid] | Some ms \<Rightarrow> ms)
          @ (case nodes (ind ! nat tl') of None \<Rightarrow> [tid] | Some tn \<Rightarrow> tn))"
proof (cases "nodes (ind ! nat hl)")
  case None
  note h = this
  show ?thesis
  proof (cases "nodes (ind ! nat tl')")
    case None
    then show ?thesis using h assms
      by (simp add: absorb_def Let_def list_update_other_id del: relabel.simps)
  next
    case (Some tn)
    then show ?thesis using h assms by (simp add: absorb_def Let_def del: relabel.simps)
  qed
next
  case (Some ms)
  note h = this
  show ?thesis
  proof (cases "nodes (ind ! nat tl')")
    case None
    then show ?thesis using h assms
      by (simp add: absorb_def Let_def list_update_other_id del: relabel.simps)
  next
    case (Some tn)
    then show ?thesis using h assms by (simp add: absorb_def Let_def del: relabel.simps)
  qed
qed

lemma absorb_spec:
  assumes mo: "members_ok V ind" and hid: "hid \<in> V" and tid: "tid \<in> V"
    and hl: "hl = label_of ind hid" and tl: "tl' = label_of ind tid" and ne: "hl \<noteq> tl'"
  shows "\<exists>ind3 ms. absorb ind hid tid hl tl' = Inr ind3 \<and> length ind3 = length ind
     \<and> (\<forall>i\<in>V. label_of ind3 i =
           (if label_of ind i = hl \<or> label_of ind i = tl' then hl else label_of ind i))
     \<and> nodes (ind3 ! nat hl) = Some ms
     \<and> set ms = {i\<in>V. label_of ind i = hl \<or> label_of ind i = tl'}
     \<and> (\<forall>r\<in>V. r \<noteq> hl \<longrightarrow> r \<noteq> tl' \<longrightarrow> nodes (ind3 ! nat r) = nodes (ind ! nat r))"
proof -
  have rng: "\<And>i. i \<in> V \<Longrightarrow> 0 \<le> i \<and> nat i < length ind"
    and lab: "\<And>i. i \<in> V \<Longrightarrow> label_of ind i \<in> V \<and> label_of ind (label_of ind i) = label_of ind i"
    and cls: "\<And>r. r \<in> label_of ind ` V \<Longrightarrow>
        (case nodes (ind ! nat r) of
          None \<Rightarrow> {i\<in>V. label_of ind i = r} = {r}
        | Some ms \<Rightarrow> set ms = {i\<in>V. label_of ind i = r})"
    using mo unfolding members_ok_def by blast+
  have hlV: "hl \<in> V" "tl' \<in> V" using lab hid tid hl tl by simp_all
  have hlr: "hl \<in> label_of ind ` V" "tl' \<in> label_of ind ` V" using hid tid hl tl by simp_all
  have nn: "nat hl \<noteq> nat tl'" using rng hlV ne by (simp add: nat_eq_iff)
  define m0 where "m0 = (case nodes (ind ! nat hl) of None \<Rightarrow> [hid] | Some ms \<Rightarrow> ms)"
  define m1 where "m1 = (case nodes (ind ! nat tl') of None \<Rightarrow> [tid] | Some tn \<Rightarrow> tn)"
  have m0: "set m0 = {i\<in>V. label_of ind i = hl}"
  proof (cases "nodes (ind ! nat hl)")
    case None
    with cls [OF hlr(1)] have "{i\<in>V. label_of ind i = hl} = {hl}" by simp
    moreover from this hid hl have "hid = hl" by blast
    ultimately show ?thesis using None by (simp add: m0_def)
  next
    case (Some ms)
    with cls [OF hlr(1)] show ?thesis by (simp add: m0_def)
  qed
  have m1: "set m1 = {i\<in>V. label_of ind i = tl'}"
  proof (cases "nodes (ind ! nat tl')")
    case None
    with cls [OF hlr(2)] have "{i\<in>V. label_of ind i = tl'} = {tl'}" by simp
    moreover from this tid tl have "tid = tl'" by blast
    ultimately show ?thesis using None by (simp add: m1_def)
  next
    case (Some ms)
    with cls [OF hlr(2)] show ?thesis by (simp add: m1_def)
  qed
  define ind2 where "ind2 = ind[nat hl := (ind ! nat hl)\<lparr>nodes := Some (m0 @ m1)\<rparr>,
                  nat tl' := (ind ! nat tl')\<lparr>nodes := None\<rparr>]"
  have eq: "absorb ind hid tid hl tl' = relabel ind2 hid (m0 @ m1)"
    unfolding ind2_def m0_def m1_def using nn rng hlV by (intro absorb_eq) simp_all
  have len2: "length ind2 = length ind" by (simp add: ind2_def)
  have hr: "nat hl < length ind" "nat tl' < length ind" using rng hlV by simp_all
  have lab2: "label (ind2 ! j) = label (ind ! j)" for j
    using hr by (cases "j = nat hl"; cases "j = nat tl'") (simp_all add: ind2_def)
  have nod2h: "nodes (ind2 ! nat hl) = Some (m0 @ m1)"
    using nn rng hlV by (simp add: ind2_def)
  have nod2o: "nodes (ind2 ! j) = nodes (ind ! j)" if "j \<noteq> nat hl" "j \<noteq> nat tl'" for j
    using that by (simp add: ind2_def)
  have inr: "\<forall>i\<in>set (m0 @ m1). 0 \<le> i \<and> nat i < length ind2"
    using m0 m1 rng by (auto simp: len2)
  from relabel_spec [OF inr] rng [OF hid] obtain ind3 where
    r: "relabel ind2 hid (m0 @ m1) = Inr ind3" and l3: "length ind3 = length ind2" and
    s: "\<forall>j<length ind2. label (ind3 ! j) =
           (if int j \<in> set (m0 @ m1) then label (ind2 ! nat hid) else label (ind2 ! j))
         \<and> nodes (ind3 ! j) = nodes (ind2 ! j)"
    by (auto simp: len2)
  have l3': "label_of ind3 i =
      (if label_of ind i = hl \<or> label_of ind i = tl' then hl else label_of ind i)"
    if "i \<in> V" for i
  proof -
    from rng [OF that] have i: "0 \<le> i" "nat i < length ind2" by (simp_all add: len2)
    have "int (nat i) \<in> set (m0 @ m1) \<longleftrightarrow> label_of ind i = hl \<or> label_of ind i = tl'"
      using i that m0 m1 by auto
    with s i show ?thesis by (auto simp: label_of_def lab2 hl)
  qed
  have n3h: "nodes (ind3 ! nat hl) = Some (m0 @ m1)"
    using s rng [OF hlV(1)] nod2h by (simp add: len2)
  have n3o: "nodes (ind3 ! nat r) = nodes (ind ! nat r)" if "r \<in> V" "r \<noteq> hl" "r \<noteq> tl'" for r
  proof -
    have "nat r \<noteq> nat hl" "nat r \<noteq> nat tl'" using rng that hlV by (simp_all add: nat_eq_iff)
    then show ?thesis using s rng [OF that(1)] nod2o by (simp add: len2)
  qed
  have "set (m0 @ m1) = {i\<in>V. label_of ind i = hl \<or> label_of ind i = tl'}"
    using m0 m1 by auto
  then show ?thesis using eq r l3 len2 l3' n3h n3o by auto
qed

lemma relabelled_members_ok:
  assumes mo: "members_ok V ind" and hid: "hid \<in> V" and tid: "tid \<in> V"
    and hl: "hl = label_of ind hid" and tl: "tl' = label_of ind tid" and ne: "hl \<noteq> tl'"
    and len: "length ind3 = length ind"
    and lab3: "\<forall>i\<in>V. label_of ind3 i =
           (if label_of ind i = hl \<or> label_of ind i = tl' then hl else label_of ind i)"
    and nh: "nodes (ind3 ! nat hl) = Some ms"
    and ms: "set ms = {i\<in>V. label_of ind i = hl \<or> label_of ind i = tl'}"
    and no: "\<forall>r\<in>V. r \<noteq> hl \<longrightarrow> r \<noteq> tl' \<longrightarrow> nodes (ind3 ! nat r) = nodes (ind ! nat r)"
  shows "members_ok V ind3 \<and> label_of ind3 ` V = label_of ind ` V - {tl'}"
proof -
  have rng: "\<And>i. i \<in> V \<Longrightarrow> 0 \<le> i \<and> nat i < length ind"
    and lab: "\<And>i. i \<in> V \<Longrightarrow> label_of ind i \<in> V \<and> label_of ind (label_of ind i) = label_of ind i"
    and cls: "\<And>r. r \<in> label_of ind ` V \<Longrightarrow>
        (case nodes (ind ! nat r) of
          None \<Rightarrow> {i\<in>V. label_of ind i = r} = {r}
        | Some ms \<Rightarrow> set ms = {i\<in>V. label_of ind i = r})"
    using mo unfolding members_ok_def by blast+
  have hlV: "hl \<in> V" "tl' \<in> V" using lab hid tid hl tl by simp_all
  have hh: "label_of ind hl = hl" "label_of ind tl' = tl'" using lab hid tid hl tl by simp_all
  have L3: "label_of ind3 i =
      (if label_of ind i = hl \<or> label_of ind i = tl' then hl else label_of ind i)" if "i \<in> V" for i
    using lab3 that by blast
  have a: "\<forall>i\<in>V. 0 \<le> i \<and> nat i < length ind3" using rng len by simp
  have b: "label_of ind3 i \<in> V \<and> label_of ind3 (label_of ind3 i) = label_of ind3 i" if "i \<in> V" for i
  proof (cases "label_of ind i = hl \<or> label_of ind i = tl'")
    case True
    then show ?thesis using L3 [OF that] L3 [OF hlV(1)] hlV hh by simp
  next
    case False
    then show ?thesis using L3 [OF that] L3 [of "label_of ind i"] lab [OF that] by simp
  qed
  have c: "case nodes (ind3 ! nat r) of
          None \<Rightarrow> {i\<in>V. label_of ind3 i = r} = {r}
        | Some ms \<Rightarrow> set ms = {i\<in>V. label_of ind3 i = r}" if "r \<in> label_of ind3 ` V" for r
  proof (cases "r = hl")
    case True
    have "label_of ind3 i = hl \<longleftrightarrow> label_of ind i = hl \<or> label_of ind i = tl'" if "i \<in> V" for i
      by (simp add: L3 [OF that])
    then have "{i\<in>V. label_of ind3 i = hl} = {i\<in>V. label_of ind i = hl \<or> label_of ind i = tl'}"
      by blast
    then show ?thesis using True nh ms by simp
  next
    case False
    from that obtain i where i: "i \<in> V" "r = label_of ind3 i" by blast
    have r: "r = label_of ind i" "r \<noteq> tl'"
      using False L3 [OF i(1)] i(2) by (simp_all split: if_splits)
    have rV: "r \<in> V" using r lab [OF i(1)] by simp
    have "label_of ind3 j = r \<longleftrightarrow> label_of ind j = r" if "j \<in> V" for j
      using False r(2) by (auto simp: L3 [OF that])
    then have "{j\<in>V. label_of ind3 j = r} = {j\<in>V. label_of ind j = r}"
      by blast
    moreover have "nodes (ind3 ! nat r) = nodes (ind ! nat r)" using no rV False r(2) by blast
    moreover have "r \<in> label_of ind ` V" using r i by blast
    ultimately show ?thesis using cls [of r] by (simp split: option.splits)
  qed
  have im: "label_of ind3 ` V = label_of ind ` V - {tl'}"
  proof (intro equalityI subsetI)
    fix r assume "r \<in> label_of ind3 ` V"
    then obtain i where i: "i \<in> V" "r = label_of ind3 i" by blast
    show "r \<in> label_of ind ` V - {tl'}"
    proof (cases "label_of ind i = hl \<or> label_of ind i = tl'")
      case True
      then have "r = hl" using L3 [OF i(1)] i(2) by simp
      then show ?thesis using hid hl ne by blast
    next
      case False
      then have "r = label_of ind i" using L3 [OF i(1)] i(2) by simp
      then show ?thesis using False i(1) by blast
    qed
  next
    fix r assume "r \<in> label_of ind ` V - {tl'}"
    then obtain i where i: "i \<in> V" "r = label_of ind i" "r \<noteq> tl'" by blast
    then have "label_of ind3 i = r" by (simp add: L3 [OF i(1)])
    then show "r \<in> label_of ind3 ` V" using i(1) by blast
  qed
  have "members_ok V ind3" unfolding members_ok_def
  proof (intro conjI ballI)
    fix r assume "r \<in> label_of ind3 ` V"
    then show "case nodes (ind3 ! nat r) of
          None \<Rightarrow> {i\<in>V. label_of ind3 i = r} = {r}
        | Some ms \<Rightarrow> set ms = {i\<in>V. label_of ind3 i = r}" by (rule c)
  qed (use a b in simp_all)
  then show ?thesis using im by simp
qed

lemma loop_eq:
  assumes "edge_u e = Some a" "edge_v e = Some b" "0 \<le> a" "nat a < length (ka_ind ka)"
    "0 \<le> b" "nat b < length (ka_ind ka)"
  shows "loop ka e = Inr (label_of (ka_ind ka) b = label_of (ka_ind ka) a)"
  using assms by (simp add: loop_def Head_ID_def Tail_ID_def bindP_def get_at_in label_of_def)

lemma merge_spec:
  assumes wf: "wf_graph g" and inv: "ctx_inv g ka" and e: "e \<in> set (g_edges g)"
    and nl: "loop ka e = Inr False"
  shows "\<exists>ka'. merge ka e = Inr ka' \<and> ctx_inv g ka' \<and> ka_order ka' = ka_order ka - 1
     \<and> ka_sel ka' = ka_sel ka \<and> ka_c ka' = ka_c ka \<and> ka_w ka' = ka_w ka
     \<and> kargerR.more ka' = kargerR.more ka"
proof -
  define V where "V = set (Nodes g)"
  define ind where "ind = ka_ind ka"
  have mo: "members_ok V ind" and card: "int (card (label_of ind ` V)) = ka_order ka"
    using inv by (simp_all add: ctx_inv_def V_def ind_def)
  have rng: "\<And>i. i \<in> V \<Longrightarrow> 0 \<le> i \<and> nat i < length ind"
    and lab: "\<And>i. i \<in> V \<Longrightarrow> label_of ind i \<in> V \<and> label_of ind (label_of ind i) = label_of ind i"
    using mo unfolding members_ok_def by blast+
  from wf e obtain a b where ab: "a \<in> V" "b \<in> V" "edge_u e = Some a" "edge_v e = Some b"
    unfolding wf_graph_def V_def by blast
  have ne: "label_of ind b \<noteq> label_of ind a"
    using nl loop_eq [OF ab(3,4), of ka] rng [OF ab(1)] rng [OF ab(2)] by (simp add: ind_def)
  define swap where "swap = (len_nodes (ind ! nat (label_of ind b)) < len_nodes (ind ! nat (label_of ind a)))"
  define hid where "hid = (if swap then a else b)"
  define tid where "tid = (if swap then b else a)"
  have ht: "hid \<in> V" "tid \<in> V" "label_of ind hid \<noteq> label_of ind tid"
    using ab ne by (auto simp: hid_def tid_def)
  have m: "merge ka e = bindP (absorb ind hid tid (label_of ind hid) (label_of ind tid))
      (\<lambda>ind3. Inr (ka\<lparr>ka_ind := ind3, ka_order := ka_order ka - 1\<rparr>))"
    using ab rng [OF ab(1)] rng [OF ab(2)] rng [of "label_of ind a"] rng [of "label_of ind b"]
      lab [OF ab(1)] lab [OF ab(2)]
    by (simp add: merge_def Head_ID_def Tail_ID_def bindP_def get_at_in Let_def
        ind_def [symmetric] label_of_def [symmetric] hid_def tid_def swap_def)
  from absorb_spec [OF mo ht(1,2) refl refl ht(3)] obtain ind3 ms where
    ab3: "absorb ind hid tid (label_of ind hid) (label_of ind tid) = Inr ind3" and
    len: "length ind3 = length ind" and
    lab3: "\<forall>i\<in>V. label_of ind3 i =
           (if label_of ind i = label_of ind hid \<or> label_of ind i = label_of ind tid
            then label_of ind hid else label_of ind i)" and
    nh: "nodes (ind3 ! nat (label_of ind hid)) = Some ms" and
    ms: "set ms = {i\<in>V. label_of ind i = label_of ind hid \<or> label_of ind i = label_of ind tid}" and
    no: "\<forall>r\<in>V. r \<noteq> label_of ind hid \<longrightarrow> r \<noteq> label_of ind tid \<longrightarrow>
           nodes (ind3 ! nat r) = nodes (ind ! nat r)"
    by blast
  from relabelled_members_ok [OF mo ht(1,2) refl refl ht(3) len lab3 nh ms no]
  have mo3: "members_ok V ind3" and
    im: "label_of ind3 ` V = label_of ind ` V - {label_of ind tid}" by simp_all
  have "finite (label_of ind ` V)" by (simp add: V_def)
  moreover have "label_of ind tid \<in> label_of ind ` V" using ht(2) by blast
  ultimately have "card (label_of ind3 ` V) = card (label_of ind ` V) - 1"
    and "0 < card (label_of ind ` V)"
    unfolding im by (simp_all add: card_Diff_singleton card_gt_0_iff) blast
  then have "int (card (label_of ind3 ` V)) = int (card (label_of ind ` V)) - 1"
    by simp
  then have "ctx_inv g (ka\<lparr>ka_ind := ind3, ka_order := ka_order ka - 1\<rparr>)"
    using mo3 card by (simp add: ctx_inv_def V_def)
  then show ?thesis using m ab3 by (simp add: bindP_def)
qed

lemma init_labels_spec:
  "init_labels ind ns = Inr ind' \<Longrightarrow>
   length ind' = length ind \<and> (\<forall>i\<in>set ns. 0 \<le> i \<and> nat i < length ind)
   \<and> (\<forall>j<length ind. label (ind' ! j) = (if int j \<in> set ns then int j else label (ind ! j))
                     \<and> nodes (ind' ! j) = nodes (ind ! j))"
proof (induction ns arbitrary: ind)
  case Nil
  then show ?case by simp
next
  case (Cons i ns)
  define ind1 where "ind1 = ind[nat i := (ind ! nat i)\<lparr>label := i\<rparr>]"
  from Cons.prems have i: "0 \<le> i" "nat i < length ind" and r: "init_labels ind1 ns = Inr ind'"
    by (auto simp: bindP_Inr_iff get_at_Inr_iff ind1_def)
  have len1: "length ind1 = length ind" by (simp add: ind1_def)
  from Cons.IH [OF r] have l: "length ind' = length ind"
    and rg: "\<forall>i\<in>set ns. 0 \<le> i \<and> nat i < length ind"
    and s: "\<And>j. j < length ind \<Longrightarrow> label (ind' ! j) = (if int j \<in> set ns then int j else label (ind1 ! j))
                     \<and> nodes (ind' ! j) = nodes (ind1 ! j)"
    by (simp_all add: len1)
  have "label (ind' ! j) = (if int j \<in> set (i # ns) then int j else label (ind ! j))
        \<and> nodes (ind' ! j) = nodes (ind ! j)" if j: "j < length ind" for j
  proof (cases "j = nat i")
    case True
    then show ?thesis using s [OF j] i j by (simp add: ind1_def)
  next
    case False
    then have "int j \<noteq> i" by auto
    then show ?thesis using s [OF j] False by (simp add: ind1_def)
  qed
  then show ?case using l rg i by simp
qed

lemma init_fields:
  "init g ka0 = Inr ka \<Longrightarrow>
   \<exists>ind s. init_labels (map (\<lambda>s. s\<lparr>label := - 1, nodes := None\<rparr>) (ka_ind ka0)) (Nodes g) = Inr ind
     \<and> fill_sel (ka_sel ka0) 0 (g_edges g) = Inr s
     \<and> ka = ka0\<lparr>ka_order := Order g, ka_ind := ind, ka_sel := Selector_Init s\<rparr>"
  by (auto simp: init_def bindP_Inr_iff)

lemma init_inv:
  assumes wf: "wf_graph g" and i: "init g ka0 = Inr ka"
  shows "ctx_inv g ka"
proof -
  from init_fields [OF i] obtain ind where
    il: "init_labels (map (\<lambda>s. s\<lparr>label := - 1, nodes := None\<rparr>) (ka_ind ka0)) (Nodes g) = Inr ind"
    and ind: "ka_ind ka = ind" and ord: "ka_order ka = Order g"
    by auto
  from init_labels_spec [OF il] have len: "length ind = length (ka_ind ka0)"
    and rng: "\<And>i. i \<in> set (Nodes g) \<Longrightarrow> 0 \<le> i \<and> nat i < length ind"
    and s: "\<And>j. j < length ind \<Longrightarrow> label (ind ! j) = (if int j \<in> set (Nodes g) then int j else - 1)
                     \<and> nodes (ind ! j) = None"
    by simp_all
  have L: "label_of ind i = i" and N: "nodes (ind ! nat i) = None" if "i \<in> set (Nodes g)" for i
    using s [of "nat i"] rng [OF that] that by (simp_all add: label_of_def)
  have im: "label_of ind ` set (Nodes g) = set (Nodes g)" using L by force
  have "members_ok (set (Nodes g)) ind"
    unfolding members_ok_def im using rng L N by auto
  moreover have "int (card (set (Nodes g))) = Order g"
    using wf by (simp add: wf_graph_def Order_def distinct_card)
  ultimately show ?thesis by (simp add: ctx_inv_def ind ord im)
qed

lemma contracting_inv: "contracting g ka \<Longrightarrow> wf_graph g \<Longrightarrow> ctx_inv g ka"
proof (induction rule: contracting.induct)
  case (start ka0 ka)
  then show ?case by (simp add: init_inv)
next
  case (frame ka ka')
  then show ?case by (simp add: ctx_inv_def)
next
  case (merged ka e ka')
  from merge_spec [OF merged.prems merged.IH [OF merged.prems] merged.hyps(2,3)] merged.hyps(4)
  show ?case by auto
qed

lemma ctx_inv_labels_ok: "ctx_inv g ka \<Longrightarrow> labels_ok g ka"
  by (auto simp: ctx_inv_def labels_ok_def members_ok_def)

text \<open>
  Claim C3.  On a well-formed graph, every context the contraction reaches, so the context
  after every merge of \<open>randContract\<close> and \<open>randCompact\<close> (lemma
  \<open>contract_loop_contracting\<close>), has exactly \<open>order\<close> distinct labels among the labels of
  the graph's nodes, and the label of a label is that label.
\<close>

theorem contraction_labels:
  assumes "wf_graph g" "contracting g ka"
  shows "labels_ok g ka"
  using assms by (simp add: ctx_inv_labels_ok contracting_inv)

lemma Edge_in: "Edge g i = Some e \<Longrightarrow> e \<in> set (g_edges g)"
  by (auto simp: Edge_def find_Some_iff)

lemma contract_loop_rule:
  assumes run: "contract_loop g k ka ds = Inr (ka', ds')" and P: "P ka"
    and sel: "\<And>ka s. P ka \<Longrightarrow> P (ka\<lparr>ka_sel := s\<rparr>)"
    and mrg: "\<And>ka e ka'. P ka \<Longrightarrow> k < ka_order ka \<Longrightarrow> e \<in> set (g_edges g) \<Longrightarrow>
        loop ka e = Inr False \<Longrightarrow> merge ka e = Inr ka' \<Longrightarrow> P ka'"
  shows "P ka'"
  using run P
proof (induction ds arbitrary: ka)
  case Nil
  then show ?case by (simp split: if_splits)
next
  case (Cons u ds)
  show ?case
  proof (cases "ka_order ka > k")
    case False
    with Cons.prems show ?thesis by simp
  next
    case True
    with Cons.prems obtain id' err s where
      s: "Selector_Select (ka_sel ka) u = Inr (id', err, s)"
      by (auto simp: bindP_Inr_iff)
    define ka1 where "ka1 = ka\<lparr>ka_sel := s\<rparr>"
    have P1: "P ka1" and o1: "k < ka_order ka1" using Cons.prems(2) True by (simp_all add: ka1_def sel)
    show ?thesis
    proof (cases err)
      case (Some a)
      with Cons.prems True s P1 show ?thesis by (auto simp: bindP_def ka1_def)
    next
      case None
      with Cons.prems True s obtain e l where e: "Edge g id' = Some e"
        and l: "loop ka1 e = Inr l"
        by (auto simp: bindP_Inr_iff ka1_def split: option.splits)
      show ?thesis
      proof (cases l)
        case True
        with Cons.prems \<open>ka_order ka > k\<close> s None e l
        have "contract_loop g k ka1 ds = Inr (ka', ds')"
          by (simp add: bindP_def ka1_def)
        from Cons.IH [OF this P1] show ?thesis .
      next
        case False
        with Cons.prems \<open>ka_order ka > k\<close> s None e l obtain ka2 where
          m: "merge ka1 e = Inr ka2" and
          r: "contract_loop g k ka2 ds = Inr (ka', ds')"
          by (auto simp: bindP_Inr_iff ka1_def)
        from mrg [OF P1 o1 Edge_in [OF e] _ m] l False have "P ka2" by simp
        from Cons.IH [OF r this] show ?thesis .
      qed
    qed
  qed
qed

lemma merge_order: "merge ka e = Inr ka' \<Longrightarrow> ka_order ka' = ka_order ka - 1"
  by (auto simp: merge_def bindP_Inr_iff Let_def)

lemma contract_loop_contracting:
  "contract_loop g k ka ds = Inr (ka', ds') \<Longrightarrow> contracting g ka \<Longrightarrow> contracting g ka'"
  by (erule contract_loop_rule [where P = "contracting g"])
     (auto intro: contracting.frame contracting.merged)

lemma contract_loop_order:
  "contract_loop g k ka ds = Inr (ka', ds') \<Longrightarrow> 2 \<le> k \<Longrightarrow> 2 \<le> ka_order ka \<Longrightarrow> 2 \<le> ka_order ka'"
  by (erule contract_loop_rule [where P = "\<lambda>ka. 2 \<le> ka_order ka"])
     (auto dest: merge_order)

lemma cut_edges_spec:
  "cut_edges ka es c w = Inr (c', w') \<Longrightarrow>
   c' = c @ filter (\<lambda>e. loop ka e = Inr False) es
   \<and> w' = w + sum_list (map weight (filter (\<lambda>e. loop ka e = Inr False) es))"
proof (induction es arbitrary: c w)
  case Nil
  then show ?case by simp
next
  case (Cons e es)
  from Cons.prems obtain l where l: "loop ka e = Inr l" by (auto simp: bindP_Inr_iff)
  show ?case
  proof (cases l)
    case True
    with Cons.prems l have "cut_edges ka es c w = Inr (c', w')" by (simp add: bindP_def)
    from Cons.IH [OF this] l True show ?thesis by simp
  next
    case False
    with Cons.prems l have "cut_edges ka es (c @ [e]) (w + weight e) = Inr (c', w')"
      by (simp add: bindP_def)
    from Cons.IH [OF this] l False show ?thesis by simp
  qed
qed

lemma loop_frame:
  "ka_ind ka' = ka_ind ka \<Longrightarrow> loop ka' e = loop ka e"
  by (simp add: loop_def)

lemma randCompact_post:
  assumes "randCompact g k ka ds = Inr (ka', ds')" "contracting g ka" "2 \<le> k" "2 \<le> ka_order ka"
  shows "contracting g ka' \<and> 2 \<le> ka_order ka' \<and> cut_ok g ka'"
proof -
  from assms(1) obtain a c w where l: "contract_loop g k ka ds = Inr (a, ds')"
    and ce: "cut_edges a (g_edges g) [] 0 = Inr (c, w)" and k: "ka' = a\<lparr>ka_c := c, ka_w := w\<rparr>"
    by (auto simp: randCompact_def bindP_Inr_iff)
  have "contracting g ka'"
    using contract_loop_contracting [OF l assms(2)] by (rule contracting.frame) (simp_all add: k)
  moreover have "2 \<le> ka_order ka'" using contract_loop_order [OF l assms(3,4)] by (simp add: k)
  moreover have "cut_ok g ka'"
    using cut_edges_spec [OF ce] loop_frame [of ka' a] by (simp add: cut_ok_def k)
  ultimately show ?thesis by simp
qed

lemma randContract_post:
  assumes "randContract g k ka ds = Inr (ka', ds')" "contracting g ka" "2 \<le> k" "2 \<le> ka_order ka"
  shows "contracting g ka' \<and> 2 \<le> ka_order ka'"
  using assms contract_loop_contracting contract_loop_order unfolding randContract_def by blast

lemma sqrt2_pos: "0 < sqrt2"
  by (simp add: sqrt2_def)

lemma contract_target_ge: "0 < n \<Longrightarrow> 2 \<le> contract_target n"
proof -
  assume "0 < n"
  then have "0 < real_of_int n / sqrt2" using sqrt2_pos by simp
  then have "1 < real_of_int n / sqrt2 + 1" by simp
  then have "1 < \<lceil>real_of_int n / sqrt2 + 1\<rceil>" by (simp add: less_ceiling_iff)
  then show ?thesis by (simp add: contract_target_def)
qed

lemma fastRandMinCut_post:
  "fastRandMinCut n g ka ds = Inr (ka', ds') \<Longrightarrow> contracting g ka \<Longrightarrow> 2 \<le> ka_order ka \<Longrightarrow>
   contracting g ka' \<and> 2 \<le> ka_order ka' \<and> cut_ok g ka'"
proof (induction n arbitrary: ka ds ka' ds')
  case 0
  then show ?case by simp
next
  case (Suc n)
  show ?case
  proof (cases "ka_order ka \<le> 6")
    case True
    with Suc.prems have "randCompact g 2 ka ds = Inr (ka', ds')" by simp
    from randCompact_post [OF this Suc.prems(2) _ Suc.prems(3)] show ?thesis by simp
  next
    case False
    from Suc.prems(1) False obtain a d1 sub0 d2 b d3 sub1 where
      a: "randContract g (contract_target (ka_order ka)) ka ds = Inr (a, d1)" and
      s0: "fastRandMinCut n g a d1 = Inr (sub0, d2)" and
      b: "randContract g (contract_target (ka_order ka)) (clone ka) d2 = Inr (b, d3)" and
      s1: "fastRandMinCut n g b d3 = Inr (sub1, ds')" and
      res: "ka' = (if ka_w sub0 < ka_w sub1 then sub0 else sub1)"
      by (auto simp: bindP_Inr_iff Let_def split: if_splits)
    have t: "2 \<le> contract_target (ka_order ka)" using False by (intro contract_target_ge) simp
    have cl: "contracting g (clone ka)" "2 \<le> ka_order (clone ka)"
      using Suc.prems(2,3) by (auto simp: clone_def intro: contracting.frame)
    from randContract_post [OF a Suc.prems(2) t Suc.prems(3)]
    have "contracting g a" "2 \<le> ka_order a" by simp_all
    from Suc.IH [OF s0 this] have p0: "contracting g sub0 \<and> 2 \<le> ka_order sub0 \<and> cut_ok g sub0" .
    from randContract_post [OF b cl(1) t cl(2)]
    have "contracting g b" "2 \<le> ka_order b" by simp_all
    from Suc.IH [OF s1 this] have p1: "contracting g sub1 \<and> 2 \<le> ka_order sub1 \<and> cut_ok g sub1" .
    show ?thesis using p0 p1 by (simp add: res)
  qed
qed






lemma wf_triangle: "wf_graph triangle"
  by code_simp

lemma contracting_triangle_ctx1: "contracting triangle triangle_ctx1"
  using fastRandMinCut_post [OF triangle_round1 contracting.start [OF triangle_init]]
  by (simp add: triangle_ctx0_def)

theorem contraction_labels_witness:
  "wf_graph triangle \<and> contracting triangle triangle_ctx1 \<and> labels_ok triangle triangle_ctx1
   \<and> ka_order triangle_ctx1 = 2
   \<and> map (label_of (ka_ind triangle_ctx1)) (Nodes triangle) = [0, 2, 2]"
proof -
  have "map (label_of (ka_ind triangle_ctx1)) (Nodes triangle) = [0, 2, 2]" by code_simp
  then show ?thesis
    using contraction_labels [OF wf_triangle contracting_triangle_ctx1]
      wf_triangle contracting_triangle_ctx1
    by (simp add: triangle_ctx1_def)
qed





end
